theory Spec2Isabelle
  imports Main "HOL-Library.Log_Nat" "HOL-Library.List_Lexorder"
begin

section \<open>JavaScript strings\<close>

text \<open>
  A JavaScript string is a sequence of UTF-16 code units; \<open>length\<close>, \<open>split("")\<close>, the
  regular expression classes and the default \<open>sort\<close> all work on code units. A string is
  modelled as the list of its code units, and \<open>js\<close> writes an ASCII literal.
\<close>

type_synonym jsstring = "nat list"

definition js :: "string \<Rightarrow> jsstring" where
  "js s = map of_char s"

text \<open>The class \<open>\d\<close> (without the unicode flag): the ten ASCII digits.\<close>

definition isDigit :: "nat \<Rightarrow> bool" where
  "isDigit c = (48 \<le> c \<and> c \<le> 57)"

text \<open>
  The class \<open>\s\<close>, which is also what \<open>trim\<close> strips: ECMAScript's WhiteSpace and
  LineTerminator code points (TAB, LF, VT, FF, CR, SP, NBSP, U+1680, U+2000..U+200A,
  U+2028, U+2029, U+202F, U+205F, U+3000, U+FEFF).
\<close>

definition isWhiteSpace :: "nat \<Rightarrow> bool" where
  "isWhiteSpace c =
     (c \<in> {9, 10, 11, 12, 13, 32, 160, 5760, 8232, 8233, 8239, 8287, 12288, 65279}
      \<or> (8192 \<le> c \<and> c \<le> 8202))"

text \<open>\<open>String.prototype.trim\<close>.\<close>

definition trim :: "jsstring \<Rightarrow> jsstring" where
  "trim s = rev (dropWhile isWhiteSpace (rev (dropWhile isWhiteSpace s)))"

text \<open>\<open>text.split(/\n|,/)\<close>: the pieces between separators, empty pieces included.\<close>

fun splitOn :: "(nat \<Rightarrow> bool) \<Rightarrow> jsstring \<Rightarrow> jsstring list" where
  "splitOn p [] = [[]]"
| "splitOn p (c # cs) =
     (if p c then [] # splitOn p cs
      else (case splitOn p cs of [] \<Rightarrow> [[c]] | x # xs \<Rightarrow> (c # x) # xs))"

text \<open>
  \<open>part.replace(/\s+/g, " ")\<close>: every maximal run of whitespace becomes one space. The
  flag says whether the previous code unit belonged to a run already replaced.
\<close>

fun collapseFrom :: "bool \<Rightarrow> jsstring \<Rightarrow> jsstring" where
  "collapseFrom inRun [] = []"
| "collapseFrom inRun (c # cs) =
     (if isWhiteSpace c then (if inRun then collapseFrom True cs else 32 # collapseFrom True cs)
      else c # collapseFrom False cs)"

definition collapseSpaces :: "jsstring \<Rightarrow> jsstring" where
  "collapseSpaces s = collapseFrom False s"

text \<open>\<open>Array.prototype.join\<close>.\<close>

fun join :: "jsstring \<Rightarrow> jsstring list \<Rightarrow> jsstring" where
  "join sep [] = []"
| "join sep [x] = x"
| "join sep (x # y # ys) = x @ sep @ join sep (y # ys)"

text \<open>The value of a sequence of decimal digits.\<close>

definition digitsValue :: "jsstring \<Rightarrow> nat" where
  "digitsValue ds = foldl (\<lambda>a c. 10 * a + (c - 48)) 0 ds"

text \<open>The decimal digits of a natural number, most significant first.\<close>

fun digitsOf :: "nat \<Rightarrow> jsstring" where
  "digitsOf n = (if n < 10 then [48 + n] else digitsOf (n div 10) @ [48 + n mod 10])"

declare digitsOf.simps [simp del]

section \<open>JavaScript numbers\<close>

text \<open>
  A Number is an IEEE 754 binary64 value: a finite double (a rational), an infinity or
  NaN. Negative zero is identified with zero: the code only adds amounts to a sum that
  starts at \<open>+0\<close>, tests them for truthiness and prints them, and none of these tells the
  two zeros apart.
\<close>

datatype jsnum = Fin rat | PosInf | NegInf | NaN

definition ipow :: "nat \<Rightarrow> int \<Rightarrow> rat" where
  "ipow b e = (if 0 \<le> e then of_nat b ^ nat e else 1 / of_nat b ^ nat (- e))"

text \<open>For positive \<open>q\<close>, the exponent \<open>g\<close> with \<open>b ^ g \<le> q < b ^ (g + 1)\<close>.\<close>

definition ilog :: "nat \<Rightarrow> rat \<Rightarrow> int" where
  "ilog b q =
     (let (n, d) = quotient_of q;
          g = int (floorlog b (nat n)) - int (floorlog b (nat d))
      in if ipow b g \<le> q then g else g - 1)"

definition roundHalfEven :: "rat \<Rightarrow> int" where
  "roundHalfEven m =
     (let f = \<lfloor>m\<rfloor>; r = m - of_int f
      in if 1 / 2 < r \<or> (r = 1 / 2 \<and> odd f) then f + 1 else f)"

text \<open>
  Rounding an exact result to the nearest double, ties to even: 53 significant bits,
  least exponent -1022 (subnormals below), overflow to an infinity from \<open>2 ^ 1024\<close>.
\<close>

definition rnd :: "rat \<Rightarrow> jsnum" where
  "rnd q =
     (if q = 0 then Fin 0
      else let a = \<bar>q\<bar>;
               e = max (ilog 2 a) (- 1022);
               u = ipow 2 (e - 52);
               v = of_int (roundHalfEven (a / u)) * u
           in if ipow 2 1024 \<le> v then (if q < 0 then NegInf else PosInf)
              else Fin (if q < 0 then - v else v))"

text \<open>The operators \<open>+\<close>, \<open>*\<close> and \<open><\<close> on Numbers.\<close>

fun jsadd :: "jsnum \<Rightarrow> jsnum \<Rightarrow> jsnum" where
  "jsadd (Fin a) (Fin b) = rnd (a + b)"
| "jsadd NaN y = NaN"
| "jsadd x NaN = NaN"
| "jsadd PosInf NegInf = NaN"
| "jsadd NegInf PosInf = NaN"
| "jsadd PosInf y = PosInf"
| "jsadd NegInf y = NegInf"
| "jsadd (Fin a) y = y"

fun jsmul :: "jsnum \<Rightarrow> jsnum \<Rightarrow> jsnum" where
  "jsmul (Fin a) (Fin b) = rnd (a * b)"
| "jsmul NaN y = NaN"
| "jsmul x NaN = NaN"
| "jsmul (Fin a) y = (if a = 0 then NaN else if (0 < a) = (y = PosInf) then PosInf else NegInf)"
| "jsmul x (Fin b) = (if b = 0 then NaN else if (0 < b) = (x = PosInf) then PosInf else NegInf)"
| "jsmul PosInf PosInf = PosInf"
| "jsmul NegInf NegInf = PosInf"
| "jsmul PosInf NegInf = NegInf"
| "jsmul NegInf PosInf = NegInf"

fun jsless :: "jsnum \<Rightarrow> jsnum \<Rightarrow> bool" where
  "jsless NaN y = False"
| "jsless x NaN = False"
| "jsless (Fin a) (Fin b) = (a < b)"
| "jsless x PosInf = (x \<noteq> PosInf)"
| "jsless NegInf y = (y \<noteq> NegInf)"
| "jsless x y = False"

text \<open>
  \<open>Number::toString\<close> (radix 10) of a positive finite double \<open>x\<close>: the digits are the
  shortest decimal \<open>s\<close> (of \<open>k\<close> digits) with \<open>s * 10 ^ (n - k)\<close> rounding to \<open>x\<close>, the
  closest such and the even one on a tie. \<open>pickAt x n k\<close> is that \<open>s\<close> among the two
  neighbours of \<open>x\<close> with \<open>k\<close> digits, when one of them rounds to \<open>x\<close>.
\<close>

definition pickAt :: "rat \<Rightarrow> int \<Rightarrow> nat \<Rightarrow> int option" where
  "pickAt x n k =
     (let p = ipow 10 (n - int k);
          c1 = \<lfloor>x / p\<rfloor>;
          c2 = c1 + 1;
          ok1 = (rnd (of_int c1 * p) = Fin x);
          ok2 = (rnd (of_int c2 * p) = Fin x);
          d1 = x - of_int c1 * p;
          d2 = of_int c2 * p - x
      in if ok1 \<and> ok2 then Some (if d1 < d2 \<or> (d1 = d2 \<and> even c1) then c1 else c2)
         else if ok1 then Some c1
         else if ok2 then Some c2
         else None)"

fun firstSome :: "'a option list \<Rightarrow> 'a option" where
  "firstSome [] = None"
| "firstSome (None # xs) = firstSome xs"
| "firstSome (Some y # xs) = Some y"

text \<open>
  The digits and the position \<open>n\<close> of the decimal point. Seventeen digits identify every
  double; the last alternative only serves rationals that are no double.
\<close>

definition shortestDigits :: "rat \<Rightarrow> jsstring \<times> int" where
  "shortestDigits x =
     (let n = ilog 10 x + 1;
          c = (case firstSome (map (pickAt x n) [1..<18]) of
                 Some c \<Rightarrow> c
               | None \<Rightarrow> \<lfloor>x / ipow 10 (n - 17)\<rfloor>);
          ds = digitsOf (nat c)
      in if 1 < length ds \<and> c = 10 ^ (length ds - 1) then ([49], n + 1) else (ds, n))"

definition formatDigits :: "jsstring \<Rightarrow> int \<Rightarrow> jsstring" where
  "formatDigits ds n =
     (let k = int (length ds) in
      if k \<le> n \<and> n \<le> 21 then ds @ replicate (nat (n - k)) 48
      else if 0 < n \<and> n \<le> 21 then take (nat n) ds @ [46] @ drop (nat n) ds
      else if - 6 < n \<and> n \<le> 0 then [48, 46] @ replicate (nat (- n)) 48 @ ds
      else let e = n - 1;
               es = (if e < 0 then [45] else [43]) @ digitsOf (nat \<bar>e\<bar>)
           in if k = 1 then ds @ [101] @ es
              else take 1 ds @ [46] @ drop 1 ds @ [101] @ es)"

text \<open>
  An integer of magnitude up to \<open>2 ^ 53\<close> is a double and prints as its decimal digits;
  this is the case of every stake a message can reasonably carry.
\<close>

definition isSafeInteger :: "rat \<Rightarrow> bool" where
  "isSafeInteger q = (of_int \<lfloor>q\<rfloor> = q \<and> \<bar>q\<bar> \<le> 2 ^ 53)"

definition positiveToString :: "rat \<Rightarrow> jsstring" where
  "positiveToString x =
     (if isSafeInteger x then digitsOf (nat \<lfloor>x\<rfloor>)
      else (let (ds, n) = shortestDigits x in formatDigits ds n))"

fun NumberToString :: "jsnum \<Rightarrow> jsstring" where
  "NumberToString NaN = js ''NaN''"
| "NumberToString PosInf = js ''Infinity''"
| "NumberToString NegInf = js ''-Infinity''"
| "NumberToString (Fin q) =
     (if q = 0 then js ''0''
      else if q < 0 then 45 # positiveToString (- q)
      else positiveToString q)"

text \<open>
  \<open>parseInt(s, 10)\<close>: leading whitespace is skipped, a sign is read, then the longest run
  of decimal digits; NaN when there is none. The integer is rounded to a double.
\<close>

definition parseInt10 :: "jsstring \<Rightarrow> jsnum" where
  "parseInt10 s =
     (let t = dropWhile isWhiteSpace s;
          u = (if t \<noteq> [] \<and> (hd t = 43 \<or> hd t = 45) then tl t else t);
          z = takeWhile isDigit u
      in if z = [] then NaN
         else if t \<noteq> [] \<and> hd t = 45 then rnd (- of_nat (digitsValue z))
         else rnd (of_nat (digitsValue z)))"

text \<open>
  \<open>StringToNumber\<close>, the conversion \<open>Number(s)\<close> applies to a string: surrounding
  whitespace is ignored; the empty string is 0; a signed decimal literal (digits, a
  fraction, an exponent) or \<open>Infinity\<close>, or an unsigned binary, octal or hexadecimal
  literal, is its value rounded; everything else is NaN.
\<close>

definition radixDigit :: "nat \<Rightarrow> nat \<Rightarrow> nat option" where
  "radixDigit r c =
     (let v = (if 48 \<le> c \<and> c \<le> 57 then c - 48
               else if 97 \<le> c \<and> c \<le> 102 then c - 87
               else if 65 \<le> c \<and> c \<le> 70 then c - 55
               else 16)
      in if v < r then Some v else None)"

definition radixLiteral :: "nat \<Rightarrow> jsstring \<Rightarrow> jsnum" where
  "radixLiteral r ds =
     (if ds \<noteq> [] \<and> list_all (\<lambda>c. radixDigit r c \<noteq> None) ds
      then rnd (of_nat (foldl (\<lambda>a c. r * a + the (radixDigit r c)) 0 ds))
      else NaN)"

text \<open>The exponent part \<open>e\<close>, \<open>E\<close> with a signed integer; \<open>None\<close> when malformed.\<close>

definition exponentPart :: "jsstring \<Rightarrow> int option" where
  "exponentPart s =
     (case s of
        [] \<Rightarrow> Some 0
      | c # t \<Rightarrow>
          if c = 101 \<or> c = 69 then
            (let u = (if t \<noteq> [] \<and> (hd t = 43 \<or> hd t = 45) then tl t else t)
             in if u \<noteq> [] \<and> list_all isDigit u
                then Some (if t \<noteq> [] \<and> hd t = 45 then - int (digitsValue u)
                           else int (digitsValue u))
                else None)
          else None)"

definition unsignedDecimal :: "jsstring \<Rightarrow> rat option" where
  "unsignedDecimal s =
     (let ip = takeWhile isDigit s;
          r1 = dropWhile isDigit s;
          dot = (r1 \<noteq> [] \<and> hd r1 = 46);
          fp = (if dot then takeWhile isDigit (tl r1) else []);
          r2 = (if dot then dropWhile isDigit (tl r1) else r1)
      in if ip = [] \<and> fp = [] then None
         else (case exponentPart r2 of
                 None \<Rightarrow> None
               | Some e \<Rightarrow>
                   Some ((of_nat (digitsValue ip)
                          + of_nat (digitsValue fp) / 10 ^ length fp) * ipow 10 e)))"

definition StringToNumber :: "jsstring \<Rightarrow> jsnum" where
  "StringToNumber s0 =
     (let s = trim s0;
          neg = (s \<noteq> [] \<and> hd s = 45);
          u = (if s \<noteq> [] \<and> (hd s = 43 \<or> hd s = 45) then tl s else s)
      in if s = [] then Fin 0
         else if u = js ''Infinity'' then (if neg then NegInf else PosInf)
         else if take 2 s = js ''0x'' \<or> take 2 s = js ''0X'' then radixLiteral 16 (drop 2 s)
         else if take 2 s = js ''0o'' \<or> take 2 s = js ''0O'' then radixLiteral 8 (drop 2 s)
         else if take 2 s = js ''0b'' \<or> take 2 s = js ''0B'' then radixLiteral 2 (drop 2 s)
         else (case unsignedDecimal u of
                 None \<Rightarrow> NaN
               | Some q \<Rightarrow> rnd (if neg then - q else q)))"

section \<open>The values a stored amount can hold\<close>

text \<open>
  A row comes back from the store as parsed JSON, so its \<open>amount\<close> is whatever the
  column holds: a number, a string, a boolean or null (undefined when the field is
  absent).
\<close>

datatype jsval = JUndefined | JNull | JBool bool | JNum jsnum | JStr jsstring

text \<open>\<open>Number(v)\<close>.\<close>

fun Number :: "jsval \<Rightarrow> jsnum" where
  "Number JUndefined = NaN"
| "Number JNull = Fin 0"
| "Number (JBool b) = (if b then Fin 1 else Fin 0)"
| "Number (JNum x) = x"
| "Number (JStr s) = StringToNumber s"

text \<open>Truthiness, as \<open>||\<close> tests it.\<close>

fun truthy :: "jsval \<Rightarrow> bool" where
  "truthy JUndefined = False"
| "truthy JNull = False"
| "truthy (JBool b) = b"
| "truthy (JNum x) = (x \<noteq> NaN \<and> x \<noteq> Fin 0)"
| "truthy (JStr s) = (s \<noteq> [])"

text \<open>\<open>v || 0\<close> on a value.\<close>

definition orZeroVal :: "jsval \<Rightarrow> jsval" where
  "orZeroVal v = (if truthy v then v else JNum (Fin 0))"

text \<open>\<open>x || 0\<close> on a Number.\<close>

definition orZero :: "jsnum \<Rightarrow> jsnum" where
  "orZero x = (if x = NaN \<or> x = Fin 0 then Fin 0 else x)"

section \<open>Regular expressions\<close>

text \<open>
  Each of the parser's four patterns is a start anchor, a sequence of character classes
  with a greedy quantifier, some of them capturing groups, and an end anchor. An item
  \<open>Rx cls lo hi grp\<close> is the class \<open>cls\<close> repeated \<open>lo\<close> to \<open>hi\<close> times (\<open>None\<close>: no upper
  bound), in a capturing group when \<open>grp\<close> holds.
\<close>

datatype rxitem = Rx "nat \<Rightarrow> bool" nat "nat option" bool

text \<open>
  Backtracking as the engine does it: an item first takes as many code units as it can
  and gives them back one at a time while the rest of the pattern fails. The result is
  the list of captured groups; the pattern ends with \<open>$\<close>, so it must use up the input.
\<close>

fun rxmatch :: "rxitem list \<Rightarrow> jsstring \<Rightarrow> jsstring list option" where
  "rxmatch [] s = (if s = [] then Some [] else None)"
| "rxmatch (Rx cls lo hi grp # its) s =
     (let avail = length (takeWhile cls s);
          top = (case hi of None \<Rightarrow> avail | Some h \<Rightarrow> min h avail)
      in firstSome
           (map (\<lambda>k. map_option (\<lambda>gs. if grp then take k s # gs else gs)
                                  (rxmatch its (drop k s)))
                (rev [lo..<Suc top])))"

declare rxmatch.simps [simp del]

text \<open>
  \<open>s.match(re)\<close> for an anchored pattern without the global flag: \<open>null\<close> or the array of
  the whole match (here all of \<open>s\<close>) followed by the groups.
\<close>

definition match :: "jsstring \<Rightarrow> rxitem list \<Rightarrow> jsstring list option" where
  "match s re = map_option (\<lambda>gs. s # gs) (rxmatch re s)"

text \<open>The four patterns of \<open>parseMessageToBets\<close>, in the order the code tries them.\<close>

definition reDelimited :: "rxitem list" where
  \<comment> \<open>\<open>/^(\d{1,2})\s*[-_dD]?\s*(\d+)$/\<close>\<close>
  "reDelimited =
     [Rx isDigit 1 (Some 2) True,
      Rx isWhiteSpace 0 None False,
      Rx (\<lambda>c. c = 45 \<or> c = 95 \<or> c = 100 \<or> c = 68) 0 (Some 1) False,
      Rx isWhiteSpace 0 None False,
      Rx isDigit 1 None True]"

definition reReverse :: "rxitem list" where
  \<comment> \<open>\<open>/^(\d{1,2})\s*[rR]\s*(\d+)$/\<close>\<close>
  "reReverse =
     [Rx isDigit 1 (Some 2) True,
      Rx isWhiteSpace 0 None False,
      Rx (\<lambda>c. c = 114 \<or> c = 82) 1 (Some 1) False,
      Rx isWhiteSpace 0 None False,
      Rx isDigit 1 None True]"

definition reEquals :: "rxitem list" where
  \<comment> \<open>\<open>/^(\d{1,2})\s*=\s*(\d+)$/\<close>\<close>
  "reEquals =
     [Rx isDigit 1 (Some 2) True,
      Rx isWhiteSpace 0 None False,
      Rx (\<lambda>c. c = 61) 1 (Some 1) False,
      Rx isWhiteSpace 0 None False,
      Rx isDigit 1 None True]"

definition reSpaced :: "rxitem list" where
  \<comment> \<open>\<open>/^(\d{1,2})\s+(\d+)$/\<close>\<close>
  "reSpaced =
     [Rx isDigit 1 (Some 2) True,
      Rx isWhiteSpace 1 None False,
      Rx isDigit 1 None True]"

section \<open>The parser (lib/parser.js)\<close>

record 'a bet =
  number :: jsstring
  amount :: 'a

definition pad2 :: "jsstring \<Rightarrow> jsstring" where
  "pad2 s = (if length s = 1 then 48 # s else s)"

text \<open>\<open>padStart(2, "0")\<close>, then the code units in reverse order.\<close>

definition reverse2 :: "jsstring \<Rightarrow> jsstring" where
  "reverse2 s = rev (replicate (2 - length s) 48 @ s)"

text \<open>
  The body of the loop for one part: the bets it pushes. The first pattern that matches
  decides, and a part that matches none pushes nothing. Every pattern has two groups, so
  a match \<open>m\<close> has the three entries \<open>m[0]\<close>, \<open>m[1]\<close>, \<open>m[2]\<close> (lemma \<open>rxmatch_length\<close>).
\<close>

definition parsePart :: "jsstring \<Rightarrow> jsnum bet list" where
  "parsePart part0 =
     (let part = collapseSpaces part0 in
      case match part reDelimited of
        Some m \<Rightarrow> [\<lparr>number = pad2 (m ! 1), amount = parseInt10 (m ! 2)\<rparr>]
      | None \<Rightarrow>
      (case match part reReverse of
        Some m \<Rightarrow>
          (let num = pad2 (m ! 1); rv = reverse2 num
           in [\<lparr>number = num, amount = parseInt10 (m ! 2)\<rparr>,
               \<lparr>number = rv, amount = parseInt10 (m ! 2)\<rparr>])
      | None \<Rightarrow>
      (case match part reEquals of
        Some m \<Rightarrow> [\<lparr>number = pad2 (m ! 1), amount = parseInt10 (m ! 2)\<rparr>]
      | None \<Rightarrow>
      (case match part reSpaced of
        Some m \<Rightarrow> [\<lparr>number = pad2 (m ! 1), amount = parseInt10 (m ! 2)\<rparr>]
      | None \<Rightarrow> []))))"

text \<open>The parts: split at newline or comma, trimmed, the empty ones dropped.\<close>

definition messageParts :: "jsstring \<Rightarrow> jsstring list" where
  "messageParts text = filter (\<lambda>s. s \<noteq> []) (map trim (splitOn (\<lambda>c. c = 10 \<or> c = 44) text))"

definition parseMessageToBets :: "jsstring \<Rightarrow> jsnum bet list" where
  "parseMessageToBets text =
     (if text = [] then []
      else foldl (\<lambda>bets part. bets @ parsePart part) [] (messageParts text))"

section \<open>The parser and its exceptions\<close>

text \<open>
  Two operations of \<open>parseMessageToBets\<close> can throw: the call \<open>text.split(...)\<close>, a
  TypeError when \<open>text\<close> is a truthy value that is not a string, and the reads \<open>m[1]\<close>,
  \<open>m[2]\<close>, a TypeError when \<open>m\<close> is \<open>null\<close>. The definitions below are the function once
  more, on an arbitrary argument value and with these exceptions as values: \<open>Inl\<close> is the
  exception thrown, \<open>Inr\<close> the array returned. \<open>trim\<close>, \<open>replace\<close>, \<open>match\<close>, \<open>parseInt\<close>,
  \<open>padStart\<close> and \<open>push\<close> do not throw on the strings and arrays they are given here.
\<close>

datatype error = TypeError

definition bindE :: "error + 'a \<Rightarrow> ('a \<Rightarrow> error + 'b) \<Rightarrow> error + 'b" where
  "bindE r f = (case r of Inl e \<Rightarrow> Inl e | Inr x \<Rightarrow> f x)"

text \<open>\<open>text.split(/\n|,/)\<close>: only a string has the method.\<close>

definition splitCall :: "jsval \<Rightarrow> error + jsstring list" where
  "splitCall text =
     (case text of JStr s \<Rightarrow> Inr (splitOn (\<lambda>c. c = 10 \<or> c = 44) s) | _ \<Rightarrow> Inl TypeError)"

text \<open>\<open>m[i]\<close> on the result of \<open>match\<close>.\<close>

definition groupAt :: "jsstring list option \<Rightarrow> nat \<Rightarrow> error + jsstring" where
  "groupAt m i = (case m of None \<Rightarrow> Inl TypeError | Some groups \<Rightarrow> Inr (groups ! i))"

text \<open>
  \<open>const num = pad2(m[1]); bets.push({ number: num, amount: parseInt(m[2], 10) })\<close>, and
  the two pushes of the reverse pattern, which read \<open>m[2]\<close> twice.
\<close>

definition pushPair :: "jsstring list option \<Rightarrow> error + jsnum bet list" where
  "pushPair m =
     bindE (groupAt m 1) (\<lambda>g1.
     bindE (groupAt m 2) (\<lambda>g2.
       Inr [\<lparr>number = pad2 g1, amount = parseInt10 g2\<rparr>]))"

definition pushReversed :: "jsstring list option \<Rightarrow> error + jsnum bet list" where
  "pushReversed m =
     bindE (groupAt m 1) (\<lambda>g1.
     let num = pad2 g1; rv = reverse2 num in
     bindE (groupAt m 2) (\<lambda>g2.
     bindE (groupAt m 2) (\<lambda>g2'.
       Inr [\<lparr>number = num, amount = parseInt10 g2\<rparr>,
            \<lparr>number = rv, amount = parseInt10 g2'\<rparr>])))"

text \<open>The body of the loop: each \<open>if (m)\<close> guards the reads of its branch.\<close>

definition parsePartE :: "jsstring \<Rightarrow> error + jsnum bet list" where
  "parsePartE part0 =
     (let part = collapseSpaces part0;
          m = match part reDelimited
      in if m \<noteq> None then pushPair m
      else let m = match part reReverse
      in if m \<noteq> None then pushReversed m
      else let m = match part reEquals
      in if m \<noteq> None then pushPair m
      else let m = match part reSpaced
      in if m \<noteq> None then pushPair m
      else Inr [])"

text \<open>The loop over the parts; an exception ends it.\<close>

fun parseLoop :: "jsnum bet list \<Rightarrow> jsstring list \<Rightarrow> error + jsnum bet list" where
  "parseLoop bets [] = Inr bets"
| "parseLoop bets (part # parts) =
     bindE (parsePartE part) (\<lambda>pushed. parseLoop (bets @ pushed) parts)"

text \<open>\<open>parseMessageToBets(text)\<close> for any argument: \<open>if (!text) return []\<close> comes first.\<close>

definition parseMessageToBetsE :: "jsval \<Rightarrow> error + jsnum bet list" where
  "parseMessageToBetsE text =
     (if \<not> truthy text then Inr []
      else bindE (splitCall text) (\<lambda>pieces.
             parseLoop [] (filter (\<lambda>s. s \<noteq> []) (map trim pieces))))"

section \<open>Plain objects\<close>

text \<open>
  An object created by \<open>{}\<close> is modelled by its own properties in creation order. Keys
  that are array indices (canonical decimal strings below \<open>2 ^ 32 - 1\<close>) are enumerated
  first, in ascending numeric order, then the other keys in creation order: this is the
  order of \<open>Object.keys\<close> and \<open>Object.entries\<close>.

  Reading \<open>obj[k]\<close> also consults \<open>Object.prototype\<close>. For a key that names none of its
  members (\<open>protoFree\<close>) the read of a missing property is \<open>undefined\<close> and an assignment
  creates the property, which is what \<open>getProp\<close> and \<open>setProp\<close> describe. For a key such
  as \<open>"constructor"\<close> the code reads the inherited member instead; the model says nothing
  about such keys, and every statement about the aggregator is made for \<open>protoFree\<close> keys.
\<close>

type_synonym 'v jsobject = "(jsstring \<times> 'v) list"

definition objectPrototypeKeys :: "jsstring list" where
  "objectPrototypeKeys =
     [js ''constructor'', js ''__defineGetter__'', js ''__defineSetter__'',
      js ''hasOwnProperty'', js ''__lookupGetter__'', js ''__lookupSetter__'',
      js ''isPrototypeOf'', js ''propertyIsEnumerable'', js ''toString'', js ''valueOf'',
      js ''__proto__'', js ''toLocaleString'']"

definition protoFree :: "jsstring \<Rightarrow> bool" where
  "protoFree k = (k \<notin> set objectPrototypeKeys)"

definition getProp :: "'v jsobject \<Rightarrow> jsstring \<Rightarrow> 'v option" where
  "getProp obj k = map_of obj k"

fun setProp :: "'v jsobject \<Rightarrow> jsstring \<Rightarrow> 'v \<Rightarrow> 'v jsobject" where
  "setProp [] k v = [(k, v)]"
| "setProp (p # ps) k v = (if fst p = k then (k, v) # ps else p # setProp ps k v)"

definition isArrayIndex :: "jsstring \<Rightarrow> bool" where
  "isArrayIndex k =
     (k \<noteq> [] \<and> list_all isDigit k \<and> (length k = 1 \<or> hd k \<noteq> 48)
      \<and> digitsValue k < 4294967295)"

definition propertyOrder :: "jsstring list \<Rightarrow> jsstring list" where
  "propertyOrder ks =
     sort_key digitsValue (filter isArrayIndex ks) @ filter (\<lambda>k. \<not> isArrayIndex k) ks"

definition ObjectKeys :: "'v jsobject \<Rightarrow> jsstring list" where
  "ObjectKeys obj = propertyOrder (map fst obj)"

definition ObjectEntries :: "'v jsobject \<Rightarrow> (jsstring \<times> 'v) list" where
  "ObjectEntries obj =
     sort_key (\<lambda>p. digitsValue (fst p)) (filter (\<lambda>p. isArrayIndex (fst p)) obj)
     @ filter (\<lambda>p. \<not> isArrayIndex (fst p)) obj"

text \<open>
  \<open>Array.prototype.sort()\<close> without a comparator, on strings: ascending in the
  lexicographic order of the code units.
\<close>

definition sortDefault :: "jsstring list \<Rightarrow> jsstring list" where
  "sortDefault ks = sort ks"

section \<open>The aggregator (replyAggregates)\<close>

record 'a betRecord = "'a bet" +
  sender :: jsstring
  created_at :: jsnum

text \<open>
  A row of the store: the bet, who sent it, and \<open>created_at\<close>, kept as the time value
  (milliseconds since the epoch, NaN for an invalid date) that \<open>new Date(r.created_at)\<close>
  has. The amount is the JSON value of the column.
\<close>

type_synonym row = "jsval betRecord"

text \<open>\<open>acc[r.number] = (acc[r.number] || 0) + (Number(r.amount) || 0)\<close>\<close>

definition orZeroProp :: "jsnum option \<Rightarrow> jsnum" where
  "orZeroProp p = (case p of None \<Rightarrow> Fin 0 | Some x \<Rightarrow> orZero x)"

definition totalStep :: "jsnum jsobject \<Rightarrow> row \<Rightarrow> jsnum jsobject" where
  "totalStep acc r =
     setProp acc (number r)
       (jsadd (orZeroProp (getProp acc (number r))) (orZero (Number (amount r))))"

definition totalAgg :: "row list \<Rightarrow> jsnum jsobject" where
  "totalAgg rows = foldl totalStep [] rows"

text \<open>A property read inside a template literal: \<open>undefined\<close> prints as such.\<close>

definition propToString :: "jsnum option \<Rightarrow> jsstring" where
  "propToString p = (case p of None \<Rightarrow> js ''undefined'' | Some x \<Rightarrow> NumberToString x)"

definition totalLines :: "row list \<Rightarrow> jsstring list" where
  "totalLines rows =
     (let agg = totalAgg rows
      in map (\<lambda>n. n @ js '' - '' @ propToString (getProp agg n)) (sortDefault (ObjectKeys agg)))"

text \<open>
  \<open>map[r.number] = map[r.number] || {}\<close>, then
  \<open>map[r.number][r.sender] = (map[r.number][r.sender] || 0) + Number(r.amount || 0)\<close>.
  The inner object is reached through \<open>map\<close> only, so updating it in place is storing the
  updated object back.
\<close>

definition perUserStep :: "jsnum jsobject jsobject \<Rightarrow> row \<Rightarrow> jsnum jsobject jsobject" where
  "perUserStep mp r =
     (let mp1 = setProp mp (number r)
                  (case getProp mp (number r) of None \<Rightarrow> [] | Some inner \<Rightarrow> inner);
          inner = (case getProp mp1 (number r) of None \<Rightarrow> [] | Some i \<Rightarrow> i)
      in setProp mp1 (number r)
           (setProp inner (sender r)
              (jsadd (orZeroProp (getProp inner (sender r)))
                     (Number (orZeroVal (amount r))))))"

definition perUserAgg :: "row list \<Rightarrow> jsnum jsobject jsobject" where
  "perUserAgg rows = foldl perUserStep [] rows"

definition perUserLine :: "jsnum jsobject jsobject \<Rightarrow> jsstring \<Rightarrow> jsstring" where
  "perUserLine mp n =
     n @ js '' -> ''
       @ join (js ''; '')
           (map (\<lambda>(s, total). s @ js '': '' @ NumberToString total)
                (ObjectEntries (case getProp mp n of None \<Rightarrow> [] | Some inner \<Rightarrow> inner)))"

definition perUserLines :: "row list \<Rightarrow> jsstring list" where
  "perUserLines rows =
     (let mp = perUserAgg rows in map (perUserLine mp) (sortDefault (ObjectKeys mp)))"

text \<open>
  The texts of the three messages. In the source file each heading starts with the four
  characters U+00F0, U+0178, U+201C, U+0160 (the UTF-8 bytes of U+1F4CA read in a
  single-byte encoding and stored again as UTF-8), so these are the code units the string
  literal holds.
\<close>

definition noDataText :: jsstring where
  "noDataText = js ''No data found for summary.''"

definition totalHeading :: jsstring where
  "totalHeading = [240, 376, 8220, 352] @ js '' Summary (numbers):'' @ [10]"

definition perUserHeading :: jsstring where
  "perUserHeading = [240, 376, 8220, 352] @ js '' Summary (per user):'' @ [10]"

text \<open>
  \<open>replyAggregates(rows, chatId, perUser)\<close> sends exactly one message to the chat; the
  model returns its text.
\<close>

definition replyAggregates :: "row list \<Rightarrow> bool \<Rightarrow> jsstring" where
  "replyAggregates rows perUser =
     (if rows = [] then noDataText
      else if \<not> perUser then totalHeading @ join [10] (totalLines rows)
      else perUserHeading @ join [10] (perUserLines rows))"

section \<open>The local-hour filter (handleSummarize, before12)\<close>

text \<open>
  \<open>new Date(millis)\<close> keeps the time value when it is finite and within 8.64e15 ms of the
  epoch (TimeClip), and is an invalid date (NaN) otherwise; \<open>getUTCHours\<close> is the hour of
  the day of a valid date and NaN of an invalid one.
\<close>

definition TimeClip :: "jsnum \<Rightarrow> jsnum" where
  "TimeClip t =
     (case t of
        Fin q \<Rightarrow> if \<bar>q\<bar> \<le> 8640000000000000 then Fin (of_int (if q < 0 then \<lceil>q\<rceil> else \<lfloor>q\<rfloor>)) else NaN
      | _ \<Rightarrow> NaN)"

definition getUTCHours :: "jsnum \<Rightarrow> jsnum" where
  "getUTCHours t =
     (case t of Fin q \<Rightarrow> Fin (of_int ((\<lfloor>q\<rfloor> div 3600000) mod 24)) | _ \<Rightarrow> NaN)"

text \<open>\<open>6.5 * 60 * 60 * 1000\<close>, evaluated left to right in double arithmetic.\<close>

definition yangonShift :: jsnum where
  "yangonShift = jsmul (jsmul (jsmul (Fin (13 / 2)) (Fin 60)) (Fin 60)) (Fin 1000)"

text \<open>
  The predicate of \<open>rows.filter\<close>, on the time value \<open>dt.getTime()\<close> of the row's date.
\<close>

definition isBeforeNoonLocal :: "jsnum \<Rightarrow> bool" where
  "isBeforeNoonLocal t =
     (let millis = jsadd t yangonShift;
          local = TimeClip millis
      in jsless (getUTCHours local) (Fin 12))"

definition filterBefore12 :: "row list \<Rightarrow> row list" where
  "filterBefore12 rows = filter (\<lambda>r. isBeforeNoonLocal (created_at r)) rows"

section \<open>What the claims speak about\<close>

text \<open>
  The notions below are not code of the repository; they say what the statements about
  the parser and the aggregator mean.
\<close>

text \<open>The class of an item: the code units it can consume.\<close>

fun rxAccepts :: "rxitem \<Rightarrow> nat \<Rightarrow> bool" where
  "rxAccepts (Rx cls lo hi grp) c = cls c"

text \<open>A part that none of the four patterns matches.\<close>

definition unrecognized :: "jsstring \<Rightarrow> bool" where
  "unrecognized part0 =
     (let part = collapseSpaces part0
      in match part reDelimited = None \<and> match part reReverse = None
         \<and> match part reEquals = None \<and> match part reSpaced = None)"

text \<open>
  The grammar of a segment, in the words of the specification: a number of one or two
  digits, then what leads to the amount, then the amount, a non-empty digit sequence to
  the end of the segment. \<open>amountForm delim optional r\<close> reads the rest \<open>r\<close> after the
  number: whitespace, a delimiter of the class \<open>delim\<close> (which may be left out when
  \<open>optional\<close> holds), whitespace, and the digits.
\<close>

definition amountForm :: "(nat \<Rightarrow> bool) \<Rightarrow> bool \<Rightarrow> jsstring \<Rightarrow> bool" where
  "amountForm delim optional r =
     (let r1 = dropWhile isWhiteSpace r;
          found = (r1 \<noteq> [] \<and> delim (hd r1));
          r2 = dropWhile isWhiteSpace (if found then tl r1 else r1)
      in (found \<or> optional) \<and> r2 \<noteq> [] \<and> list_all isDigit r2)"

text \<open>The number is the first \<open>k\<close> code units.\<close>

definition pairAt :: "(nat \<Rightarrow> bool) \<Rightarrow> bool \<Rightarrow> nat \<Rightarrow> jsstring \<Rightarrow> bool" where
  "pairAt delim optional k p =
     (k \<le> length p \<and> list_all isDigit (take k p) \<and> amountForm delim optional (drop k p))"

definition pairForm :: "(nat \<Rightarrow> bool) \<Rightarrow> bool \<Rightarrow> jsstring \<Rightarrow> bool" where
  "pairForm delim optional p = (pairAt delim optional 1 p \<or> pairAt delim optional 2 p)"

text \<open>
  The four rules: the pair with an optional delimiter \<open>-\<close>, \<open>_\<close>, \<open>d\<close> or \<open>D\<close>; the reverse
  bet with \<open>r\<close> or \<open>R\<close>; the pair with \<open>=\<close>; the pair separated by whitespace alone.
\<close>

definition delimitedRule :: "jsstring \<Rightarrow> bool" where
  "delimitedRule p = pairForm (\<lambda>c. c = 45 \<or> c = 95 \<or> c = 100 \<or> c = 68) True p"

definition reverseRule :: "jsstring \<Rightarrow> bool" where
  "reverseRule p = pairForm (\<lambda>c. c = 114 \<or> c = 82) False p"

definition equalsRule :: "jsstring \<Rightarrow> bool" where
  "equalsRule p = pairForm (\<lambda>c. c = 61) False p"

definition spacedAt :: "nat \<Rightarrow> jsstring \<Rightarrow> bool" where
  "spacedAt k p =
     (k < length p \<and> list_all isDigit (take k p) \<and> isWhiteSpace (p ! k)
      \<and> dropWhile isWhiteSpace (drop k p) \<noteq> []
      \<and> list_all isDigit (dropWhile isWhiteSpace (drop k p)))"

definition spacedRule :: "jsstring \<Rightarrow> bool" where
  "spacedRule p = (spacedAt 1 p \<or> spacedAt 2 p)"

text \<open>A segment that some rule of the grammar matches.\<close>

definition grammarSegment :: "jsstring \<Rightarrow> bool" where
  "grammarSegment p = (delimitedRule p \<or> reverseRule p \<or> equalsRule p \<or> spacedRule p)"

text \<open>First-appearance order: every element once, at the place of its first occurrence.\<close>

fun firstSeen :: "'a list \<Rightarrow> 'a list" where
  "firstSeen [] = []"
| "firstSeen (x # xs) = x # filter (\<lambda>y. y \<noteq> x) (firstSeen xs)"

text \<open>
  The sum of a group, taken over the rows of one number in input order the way the loop
  takes it: \<open>(sum || 0) + (Number(amount) || 0)\<close> in total mode.
\<close>

definition groupTotal :: "jsstring \<Rightarrow> row list \<Rightarrow> jsnum" where
  "groupTotal n rows =
     foldl (\<lambda>t r. jsadd (orZero t) (orZero (Number (amount r)))) (Fin 0)
       (filter (\<lambda>r. number r = n) rows)"

text \<open>
  The same over the rows of one number and one sender, the way per-sender mode adds:
  \<open>(sum || 0) + Number(amount || 0)\<close>.
\<close>

definition senderTotal :: "jsstring \<Rightarrow> jsstring \<Rightarrow> row list \<Rightarrow> jsnum" where
  "senderTotal n s rows =
     foldl (\<lambda>t r. jsadd (orZero t) (Number (orZeroVal (amount r)))) (Fin 0)
       (filter (\<lambda>r. number r = n \<and> sender r = s) rows)"

text \<open>The senders of a number, in first-appearance order among its rows.\<close>

definition sendersOf :: "jsstring \<Rightarrow> row list \<Rightarrow> jsstring list" where
  "sendersOf n rows = firstSeen (map sender (filter (\<lambda>r. number r = n) rows))"

text \<open>
  A per-sender line \<open>"<number> -> <sender1>: <sum1>; <sender2>: <sum2>; ..."\<close> whose
  senders are the first-appearance list rearranged by \<open>order\<close>.
\<close>

definition senderLine ::
  "(jsstring list \<Rightarrow> jsstring list) \<Rightarrow> row list \<Rightarrow> jsstring \<Rightarrow> jsstring" where
  "senderLine order rows n =
     n @ js '' -> ''
       @ join (js ''; '')
           (map (\<lambda>s. s @ js '': '' @ NumberToString (senderTotal n s rows))
                (order (sendersOf n rows)))"

text \<open>The update of the inner object of \<open>perUserStep\<close>, on its own.\<close>

definition senderStep :: "jsnum jsobject \<Rightarrow> row \<Rightarrow> jsnum jsobject" where
  "senderStep inner r =
     setProp inner (sender r)
       (jsadd (orZeroProp (getProp inner (sender r))) (Number (orZeroVal (amount r))))"

text \<open>
  Integer stakes: every amount coerces to an integer, \<open>stakeOf\<close>; \<open>totalMagnitude\<close> adds
  their absolute values. Up to \<open>2 ^ 53\<close> double addition of integers is exact.
\<close>

definition stakeOf :: "jsval \<Rightarrow> int" where
  "stakeOf v = (case Number v of Fin q \<Rightarrow> \<lfloor>q\<rfloor> | _ \<Rightarrow> 0)"

definition integerStakes :: "row list \<Rightarrow> bool" where
  "integerStakes rows = list_all (\<lambda>r. Number (amount r) = Fin (of_int (stakeOf (amount r)))) rows"

definition totalMagnitude :: "row list \<Rightarrow> int" where
  "totalMagnitude rows = sum_list (map (\<lambda>r. \<bar>stakeOf (amount r)\<bar>) rows)"

text \<open>
  The sum over the senders of one number, added with \<open>+\<close> in the order the object
  lists them, and the agreement of the two modes on a number.
\<close>

definition sumOverSenders :: "jsnum jsobject \<Rightarrow> jsnum" where
  "sumOverSenders inner = foldl jsadd (Fin 0) (map snd (ObjectEntries inner))"

definition modesAgree :: "row list \<Rightarrow> jsstring \<Rightarrow> bool" where
  "modesAgree rows n =
     (case (getProp (totalAgg rows) n, getProp (perUserAgg rows) n) of
        (Some t, Some inner) \<Rightarrow> t = sumOverSenders inner
      | _ \<Rightarrow> False)"

text \<open>The hour of the day, UTC+6:30, of the instant \<open>t\<close> milliseconds after the epoch.\<close>

definition localHourOfDay :: "int \<Rightarrow> int" where
  "localHourOfDay t = ((t + 23400000) div 3600000) mod 24"

text \<open>A row written from ASCII literals, for the concrete instances.\<close>

definition mkRow :: "string \<Rightarrow> jsval \<Rightarrow> string \<Rightarrow> row" where
  "mkRow n a s = \<lparr>number = js n, amount = a, sender = js s, created_at = Fin 0\<rparr>"

section \<open>Lemmas\<close>

subsection \<open>Rounding is exact on integers up to \<open>2 ^ 53\<close>\<close>

lemma ipow_nonneg: "0 \<le> e \<Longrightarrow> ipow b e = of_nat b ^ nat e"
  by (simp add: ipow_def)

lemma ilog2_of_nat:
  assumes "0 < a"
  shows "ilog 2 (of_nat a) = int (floorlog 2 a) - 1"
proof -
  have q: "quotient_of (of_nat a :: rat) = (int a, 1)"
    using quotient_of_int[of "int a"] by simp
  have fl1: "floorlog 2 (Suc 0) = 1"
    by (simp add: compute_floorlog)
  have pos: "0 < floorlog 2 a"
    using assms by (simp add: floorlog_def)
  have lb: "2 ^ (floorlog 2 a - 1) \<le> a"
    using floorlog_bounds[of a 2] assms by simp
  have "(2::rat) ^ (floorlog 2 a - 1) \<le> of_nat a"
    using lb by (metis of_nat_le_iff of_nat_numeral of_nat_power)
  then show ?thesis
    using pos by (simp add: ilog_def q fl1 ipow_def nat_diff_distrib)
qed

lemma floorlog_le_54:
  assumes "a \<le> 2 ^ 53"
  shows "floorlog 2 a \<le> 54"
proof -
  have "a < 2 ^ 54" using assms by simp
  then show ?thesis by (simp add: floorlog_le_iff)
qed

lemma roundHalfEven_of_int: "roundHalfEven (of_int m) = m"
  by (simp add: roundHalfEven_def)

lemma rnd_of_nat_safe:
  assumes "a \<le> 2 ^ 53" "0 < a"
  shows "rnd (of_nat a) = Fin (of_nat a)" and "rnd (- of_nat a) = Fin (- of_nat a)"
proof -
  define g where "g = int (floorlog 2 a) - 1"
  have il: "ilog 2 (of_nat a) = g"
    using ilog2_of_nat[OF assms(2)] by (simp add: g_def)
  have pos: "0 < floorlog 2 a"
    using assms by (simp add: floorlog_def)
  have g0: "0 \<le> g" using pos by (simp add: g_def)
  have g53: "g \<le> 53" using floorlog_le_54[OF assms(1)] by (simp add: g_def)
  have lb: "2 ^ nat g \<le> a"
    using floorlog_bounds[of a 2] assms(2) pos by (simp add: g_def nat_diff_distrib)
  have v: "of_int (roundHalfEven (of_nat a / ipow 2 (g - 52))) * ipow 2 (g - 52) = (of_nat a :: rat)"
  proof (cases "g \<le> 52")
    case True
    have "ipow 2 (g - 52) = 1 / 2 ^ nat (52 - g)"
      using True by (cases "g = 52") (simp_all add: ipow_def)
    moreover have "(of_nat a :: rat) * 2 ^ nat (52 - g) = of_int (int a * 2 ^ nat (52 - g))"
      by simp
    ultimately have "of_int (roundHalfEven (of_nat a / ipow 2 (g - 52))) * ipow 2 (g - 52)
        = (of_int (int a * 2 ^ nat (52 - g)) :: rat) / 2 ^ nat (52 - g)"
      by (simp add: roundHalfEven_of_int del: of_int_mult of_int_power)
    also have "\<dots> = of_nat a" by simp
    finally show ?thesis .
  next
    case False
    then have g: "g = 53" using g53 by simp
    have "a = 2 ^ 53" using lb assms(1) g by simp
    then have a: "(of_nat a :: rat) = of_int (2 ^ 52) * 2" by simp
    have "ipow 2 (g - 52) = 2" using g by (simp add: ipow_def)
    then show ?thesis
      unfolding a by (simp add: roundHalfEven_of_int del: of_int_power of_int_numeral)
  qed
  have small: "\<not> ipow 2 1024 \<le> (of_nat a :: rat)"
  proof -
    have "(of_nat a :: rat) \<le> 2 ^ 53"
      using assms(1) by (metis of_nat_le_iff of_nat_numeral of_nat_power)
    moreover have "(2::rat) ^ 53 < 2 ^ 1024" by simp
    ultimately show ?thesis by (simp add: ipow_def)
  qed
  have m: "max g (- 1022) = g" using g0 by simp
  have ne: "(of_nat a :: rat) \<noteq> 0" "\<not> (of_nat a :: rat) < 0" "0 < (of_nat a :: rat)"
    using assms(2) by simp_all
  show "rnd (of_nat a) = Fin (of_nat a)"
    using ne by (simp add: rnd_def Let_def il m v small)
  show "rnd (- of_nat a) = Fin (- of_nat a)"
    using ne by (simp add: rnd_def Let_def il m v small)
qed

lemma rnd_of_int_safe:
  assumes "\<bar>n\<bar> \<le> 2 ^ 53"
  shows "rnd (of_int n) = Fin (of_int n)"
proof (cases "n = 0")
  case True
  then show ?thesis by (simp add: rnd_def)
next
  case False
  define a where "a = nat \<bar>n\<bar>"
  have a: "a \<le> 2 ^ 53" "0 < a" using assms False by (simp_all add: a_def nat_le_iff)
  show ?thesis
  proof (cases "0 < n")
    case True
    then have "(of_int n :: rat) = of_nat a" by (simp add: a_def)
    then show ?thesis using rnd_of_nat_safe(1)[OF a] by simp
  next
    case False
    then have "(of_int n :: rat) = - of_nat a" using \<open>n \<noteq> 0\<close> by (simp add: a_def)
    then show ?thesis using rnd_of_nat_safe(2)[OF a] by simp
  qed
qed

lemma jsadd_safe:
  "\<bar>a + b\<bar> \<le> 2 ^ 53 \<Longrightarrow> jsadd (Fin (of_int a)) (Fin (of_int b)) = Fin (of_int (a + b))"
  using rnd_of_int_safe[of "a + b"] by simp

subsection \<open>The matcher\<close>

lemma firstSome_map_SomeD:
  "firstSome (map f xs) = Some y \<Longrightarrow> \<exists>x\<in>set xs. f x = Some y"
proof (induction xs)
  case Nil
  then show ?case by simp
next
  case (Cons a xs)
  then show ?case by (cases "f a") auto
qed

lemma firstSome_map_None:
  "(\<And>x. x \<in> set xs \<Longrightarrow> f x = None) \<Longrightarrow> firstSome (map f xs) = None"
  by (induction xs) auto

lemma take_le_takeWhile:
  assumes "k \<le> length (takeWhile P s)"
  shows "list_all P (take k s)" and "length (take k s) = k"
proof -
  have "take k (takeWhile P s @ dropWhile P s) = take k (takeWhile P s)"
    using assms by (simp del: takeWhile_dropWhile_id)
  then have eq: "take k s = take k (takeWhile P s)" by simp
  have "set (take k (takeWhile P s)) \<subseteq> set (takeWhile P s)" by (rule set_take_subset)
  then show "list_all P (take k s)"
    unfolding eq list_all_iff by (meson set_takeWhileD subsetD)
  have "length (takeWhile P s) \<le> length s" by (rule length_takeWhile_le)
  then show "length (take k s) = k" using assms by simp
qed

lemma rxmatch_ConsD:
  assumes "rxmatch (Rx cls lo hi grp # its) s = Some gs"
  shows "\<exists>k gs'. lo \<le> k \<and> k \<le> length (takeWhile cls s)
           \<and> (case hi of None \<Rightarrow> True | Some h \<Rightarrow> k \<le> h)
           \<and> rxmatch its (drop k s) = Some gs'
           \<and> gs = (if grp then take k s # gs' else gs')"
proof -
  define mx where "mx = (case hi of None \<Rightarrow> length (takeWhile cls s)
                           | Some h \<Rightarrow> min h (length (takeWhile cls s)))"
  define f where "f = (\<lambda>k. map_option (\<lambda>gs. if grp then take k s # gs else gs)
                                       (rxmatch its (drop k s)))"
  have "rxmatch (Rx cls lo hi grp # its) s = firstSome (map f (rev [lo..<Suc mx]))"
    unfolding rxmatch.simps Let_def mx_def f_def ..
  with assms have "firstSome (map f (rev [lo..<Suc mx])) = Some gs" by simp
  from firstSome_map_SomeD[OF this] obtain k where k: "k \<in> set (rev [lo..<Suc mx])"
      and r: "f k = Some gs"
    by blast
  from r obtain gs' where g: "rxmatch its (drop k s) = Some gs'"
      "gs = (if grp then take k s # gs' else gs')"
    unfolding f_def by (cases "rxmatch its (drop k s)") auto
  from k have "lo \<le> k" "k \<le> mx" by auto
  then have "lo \<le> k" "k \<le> length (takeWhile cls s)" "case hi of None \<Rightarrow> True | Some h \<Rightarrow> k \<le> h"
    by (auto simp: mx_def split: option.splits)
  with g show ?thesis by blast
qed

lemma rxmatch_greedy:
  assumes "mx = (case hi of None \<Rightarrow> length (takeWhile cls s)
                  | Some h \<Rightarrow> min h (length (takeWhile cls s)))"
    and "lo \<le> mx"
    and "rxmatch its (drop mx s) = Some gs"
  shows "rxmatch (Rx cls lo hi grp # its) s = Some (if grp then take mx s # gs else gs)"
proof -
  have "rev [lo..<Suc mx] = mx # rev [lo..<mx]"
    using assms(2) by simp
  then show ?thesis
    using assms(1,3) by (simp add: rxmatch.simps Let_def)
qed

lemma rxmatch_chars:
  "rxmatch its s = Some gs \<Longrightarrow> c \<in> set s \<Longrightarrow> \<exists>it\<in>set its. rxAccepts it c"
proof (induction its arbitrary: s gs)
  case Nil
  then show ?case by (simp add: rxmatch.simps split: if_splits)
next
  case (Cons it its)
  obtain cls lo hi grp where it: "it = Rx cls lo hi grp" by (cases it)
  from Cons.prems(1) obtain k gs' where k: "k \<le> length (takeWhile cls s)"
      and r: "rxmatch its (drop k s) = Some gs'"
    unfolding it using rxmatch_ConsD by blast
  from Cons.prems(2) have "c \<in> set (take k s) \<or> c \<in> set (drop k s)"
    by (metis Un_iff append_take_drop_id set_append)
  then show ?case
  proof
    assume "c \<in> set (take k s)"
    then have "cls c" using take_le_takeWhile(1)[OF k] by (simp add: list_all_iff)
    then show ?thesis by (simp add: it)
  next
    assume "c \<in> set (drop k s)"
    then show ?thesis using Cons.IH[OF r] by auto
  qed
qed

lemma rxmatch_length:
  "rxmatch its s = Some gs \<Longrightarrow> length gs = length (filter (\<lambda>it. case it of Rx cls lo hi grp \<Rightarrow> grp) its)"
proof (induction its arbitrary: s gs)
  case Nil
  then show ?case by (simp add: rxmatch.simps split: if_splits)
next
  case (Cons it its)
  obtain cls lo hi grp where it: "it = Rx cls lo hi grp" by (cases it)
  from Cons.prems obtain k gs' where r: "rxmatch its (drop k s) = Some gs'"
      and g: "gs = (if grp then take k s # gs' else gs')"
    unfolding it using rxmatch_ConsD by blast
  show ?case using Cons.IH[OF r] g by (simp add: it)
qed

text \<open>The first group of each of the four patterns: one or two digits.\<close>

lemma match_number_group:
  assumes "match part (Rx isDigit 1 (Some 2) True # its) = Some m"
  shows "length (m ! 1) = 1 \<or> length (m ! 1) = 2" and "list_all isDigit (m ! 1)"
proof -
  from assms obtain gs where gs: "rxmatch (Rx isDigit 1 (Some 2) True # its) part = Some gs"
      and m: "m = part # gs"
    by (auto simp: match_def)
  from rxmatch_ConsD[OF gs] obtain k gs' where k: "1 \<le> k" "k \<le> length (takeWhile isDigit part)" "k \<le> 2"
      and g: "gs = take k part # gs'"
    by auto
  have m1: "m ! 1 = take k part" by (simp add: m g)
  show "length (m ! 1) = 1 \<or> length (m ! 1) = 2"
    using take_le_takeWhile(2)[OF k(2)] k(1,3) unfolding m1 by linarith
  show "list_all isDigit (m ! 1)"
    using take_le_takeWhile(1)[OF k(2)] unfolding m1 .
qed

lemma pad2_two_digits:
  assumes "length s = 1 \<or> length s = 2" "list_all isDigit s"
  shows "length (pad2 s) = 2" and "list_all isDigit (pad2 s)"
  using assms by (auto simp: pad2_def isDigit_def)

lemma reverse2_two_digits:
  assumes "length s = 2" "list_all isDigit s"
  shows "length (reverse2 s) = 2" and "list_all isDigit (reverse2 s)"
  using assms by (auto simp: reverse2_def list_all_iff)

lemma parsePart_number:
  assumes "b \<in> set (parsePart p)"
  shows "length (number b) = 2 \<and> list_all isDigit (number b)"
proof -
  let ?part = "collapseSpaces p"
  have P: "match ?part re = Some m \<Longrightarrow> re \<in> {reDelimited, reReverse, reEquals, reSpaced}
      \<Longrightarrow> length (pad2 (m ! 1)) = 2 \<and> list_all isDigit (pad2 (m ! 1))" for re m
    using match_number_group pad2_two_digits
    by (auto simp: reDelimited_def reReverse_def reEquals_def reSpaced_def)
  show ?thesis
    using assms P reverse2_two_digits
    by (auto simp: parsePart_def Let_def split: option.splits)
qed

lemma foldl_append_concat:
  "foldl (\<lambda>bets part. bets @ f part) acc ps = acc @ concat (map f ps)"
  by (induction ps arbitrary: acc) auto

lemma messageParts_Nil: "messageParts [] = []"
  by (simp add: messageParts_def trim_def)

lemma parseMessageToBets_concat:
  "parseMessageToBets text = concat (map parsePart (messageParts text))"
  by (simp add: parseMessageToBets_def foldl_append_concat messageParts_Nil)

lemma parse_number_two_digits:
  "b \<in> set (parseMessageToBets text) \<Longrightarrow> length (number b) = 2 \<and> list_all isDigit (number b)"
  using parsePart_number by (auto simp: parseMessageToBets_concat)

subsection \<open>Whitespace and the four patterns\<close>

lemma digit_not_ws: "isDigit c \<Longrightarrow> \<not> isWhiteSpace c"
  by (auto simp: isDigit_def isWhiteSpace_def)

lemma collapseFrom_nonws:
  "\<forall>c\<in>set xs. \<not> isWhiteSpace c \<Longrightarrow>
     collapseFrom b (xs @ ys) = xs @ collapseFrom (if xs = [] then b else False) ys"
  by (induction xs arbitrary: b) auto

lemma collapseFrom_nonws_all:
  "\<forall>c\<in>set xs. \<not> isWhiteSpace c \<Longrightarrow> collapseFrom b xs = xs"
  using collapseFrom_nonws[of xs b "[]"] by simp

lemma collapseFrom_True_ws:
  "\<forall>c\<in>set ws. isWhiteSpace c \<Longrightarrow> collapseFrom True (ws @ ys) = collapseFrom True ys"
  by (induction ws) auto

lemma collapseFrom_run:
  assumes "\<forall>c\<in>set ws. isWhiteSpace c" "\<not> isWhiteSpace c"
  shows "collapseFrom False (ws @ c # ys) = (if ws = [] then [] else [32]) @ c # collapseFrom False ys"
proof (cases ws)
  case Nil
  then show ?thesis using assms(2) by simp
next
  case (Cons w ws')
  then have "collapseFrom False (ws @ c # ys) = 32 # collapseFrom True (ws' @ c # ys)"
    using assms(1) by simp
  also have "\<dots> = 32 # collapseFrom True (c # ys)"
    using collapseFrom_True_ws[of ws' "c # ys"] assms(1) Cons by simp
  finally show ?thesis using assms(2) Cons by simp
qed

text \<open>A separated pair after whitespace normalisation.\<close>

lemma collapseSpaces_pair:
  assumes d: "d \<noteq> []" "list_all isDigit d"
    and a: "a \<noteq> []" "list_all isDigit a"
    and w: "list_all isWhiteSpace ws1" "list_all isWhiteSpace ws2"
    and r: "\<not> isWhiteSpace r"
  shows "collapseSpaces (d @ ws1 @ [r] @ ws2 @ a)
         = d @ (if ws1 = [] then [] else [32]) @ [r] @ (if ws2 = [] then [] else [32]) @ a"
proof -
  obtain a0 as where as: "a = a0 # as" using a(1) by (cases a) auto
  have dn: "\<forall>c\<in>set d. \<not> isWhiteSpace c" and an: "\<forall>c\<in>set a. \<not> isWhiteSpace c"
    using d(2) a(2) digit_not_ws by (auto simp: list_all_iff)
  have "collapseSpaces (d @ ws1 @ [r] @ ws2 @ a) = d @ collapseFrom False (ws1 @ r # (ws2 @ a))"
    unfolding collapseSpaces_def using collapseFrom_nonws[OF dn] d(1) by simp
  also have "collapseFrom False (ws1 @ r # (ws2 @ a))
      = (if ws1 = [] then [] else [32]) @ r # collapseFrom False (ws2 @ a0 # as)"
    using collapseFrom_run[of ws1 r] w(1) r by (simp add: list_all_iff as)
  also have "collapseFrom False (ws2 @ a0 # as)
      = (if ws2 = [] then [] else [32]) @ a0 # collapseFrom False as"
    using collapseFrom_run[of ws2 a0] w(2) an by (simp add: list_all_iff as)
  also have "collapseFrom False as = as"
    using collapseFrom_nonws_all[of as] an by (simp add: as)
  finally show ?thesis by (simp add: as)
qed

lemma takeWhile_prefix:
  assumes "list_all P xs" "ys = [] \<or> \<not> P (hd ys)"
  shows "takeWhile P (xs @ ys) = xs"
proof -
  have "takeWhile P ys = []" using assms(2) by (cases ys) auto
  then show ?thesis using assms(1) by (simp add: list_all_iff)
qed

lemma rxmatch_last_digits:
  assumes "a \<noteq> []" "list_all isDigit a"
  shows "rxmatch [Rx isDigit 1 None True] a = Some [a]"
proof -
  have tw: "takeWhile isDigit a = a" using assms(2) by (simp add: list_all_iff)
  have "rxmatch (Rx isDigit 1 None True # []) a = Some (if True then take (length a) a # [] else [])"
  proof (rule rxmatch_greedy)
    show "length a = (case None of None \<Rightarrow> length (takeWhile isDigit a)
                      | Some h \<Rightarrow> min h (length (takeWhile isDigit a)))"
      by (simp add: tw)
    show "1 \<le> length a" using assms(1) by (simp add: Suc_le_eq)
    show "rxmatch [] (drop (length a) a) = Some []" by (simp add: rxmatch.simps)
  qed
  then show ?thesis by simp
qed

lemma rxmatch_ws_then:
  assumes "list_all isWhiteSpace ws" "s = [] \<or> \<not> isWhiteSpace (hd s)" "rxmatch its s = Some gs"
  shows "rxmatch (Rx isWhiteSpace 0 None False # its) (ws @ s) = Some gs"
proof -
  have tw: "takeWhile isWhiteSpace (ws @ s) = ws" using takeWhile_prefix[OF assms(1,2)] .
  have "rxmatch (Rx isWhiteSpace 0 None False # its) (ws @ s)
        = Some (if False then take (length ws) (ws @ s) # gs else gs)"
  proof (rule rxmatch_greedy)
    show "length ws = (case None of None \<Rightarrow> length (takeWhile isWhiteSpace (ws @ s))
                       | Some h \<Rightarrow> min h (length (takeWhile isWhiteSpace (ws @ s))))"
      by (simp add: tw)
    show "0 \<le> length ws" by simp
    show "rxmatch its (drop (length ws) (ws @ s)) = Some gs" using assms(3) by simp
  qed
  then show ?thesis by simp
qed

text \<open>
  A pair with a separator character: one or two digits, whitespace, the separator,
  whitespace, digits. The greedy first attempt of every item succeeds.
\<close>

lemma rxmatch_separated:
  assumes d: "d \<noteq> []" "length d \<le> 2" "list_all isDigit d"
    and a: "a \<noteq> []" "list_all isDigit a"
    and w: "list_all isWhiteSpace s1" "list_all isWhiteSpace s2"
    and r: "sep r" "\<not> isWhiteSpace r" "\<not> isDigit r"
    and disj: "\<And>c. sep c \<Longrightarrow> \<not> isWhiteSpace c \<and> \<not> isDigit c"
    and lo: "lo \<le> 1"
  shows "rxmatch [Rx isDigit 1 (Some 2) True, Rx isWhiteSpace 0 None False,
                  Rx sep lo (Some 1) False, Rx isWhiteSpace 0 None False,
                  Rx isDigit 1 None True] (d @ s1 @ [r] @ s2 @ a) = Some [d, a]"
proof -
  obtain a0 as where as: "a = a0 # as" using a(1) by (cases a) auto
  have a0: "isDigit a0" using a(2) by (simp add: as)
  have a0w: "\<not> isWhiteSpace a0" using a0 by (rule digit_not_ws)
  have e4: "rxmatch [Rx isWhiteSpace 0 None False, Rx isDigit 1 None True] (s2 @ a) = Some [a]"
  proof (rule rxmatch_ws_then[OF w(2)])
    show "a = [] \<or> \<not> isWhiteSpace (hd a)" using a0w by (simp add: as)
    show "rxmatch [Rx isDigit 1 None True] a = Some [a]" by (rule rxmatch_last_digits[OF a])
  qed
  have tw3: "takeWhile sep (r # s2 @ a) = [r]"
  proof -
    have "s2 @ a = [] \<or> \<not> sep (hd (s2 @ a))"
    proof (cases s2)
      case Nil
      then show ?thesis using disj[of a0] a0 by (auto simp: as)
    next
      case (Cons x xs)
      then have "isWhiteSpace x" using w(2) by simp
      then show ?thesis using disj[of x] Cons by auto
    qed
    from takeWhile_prefix[of sep "[r]", OF _ this] r(1) show ?thesis by simp
  qed
  have e3: "rxmatch [Rx sep lo (Some 1) False, Rx isWhiteSpace 0 None False, Rx isDigit 1 None True]
              (r # s2 @ a) = Some [a]"
  proof -
    have "rxmatch (Rx sep lo (Some 1) False # [Rx isWhiteSpace 0 None False, Rx isDigit 1 None True])
            (r # s2 @ a) = Some (if False then take 1 (r # s2 @ a) # [a] else [a])"
    proof (rule rxmatch_greedy)
      show "1 = (case Some 1 of None \<Rightarrow> length (takeWhile sep (r # s2 @ a))
                 | Some h \<Rightarrow> min h (length (takeWhile sep (r # s2 @ a))))"
        unfolding tw3 by simp
      show "lo \<le> 1" by (rule lo)
      show "rxmatch [Rx isWhiteSpace 0 None False, Rx isDigit 1 None True] (drop 1 (r # s2 @ a)) = Some [a]"
        using e4 by simp
    qed
    then show ?thesis by simp
  qed
  have e2: "rxmatch [Rx isWhiteSpace 0 None False, Rx sep lo (Some 1) False,
                     Rx isWhiteSpace 0 None False, Rx isDigit 1 None True]
              (s1 @ r # s2 @ a) = Some [a]"
  proof (rule rxmatch_ws_then[OF w(1)])
    show "r # s2 @ a = [] \<or> \<not> isWhiteSpace (hd (r # s2 @ a))" using r(2) by simp
    show "rxmatch [Rx sep lo (Some 1) False, Rx isWhiteSpace 0 None False, Rx isDigit 1 None True]
            (r # s2 @ a) = Some [a]" by (rule e3)
  qed
  have tw1: "takeWhile isDigit (d @ s1 @ r # s2 @ a) = d"
  proof -
    have "s1 @ r # s2 @ a = [] \<or> \<not> isDigit (hd (s1 @ r # s2 @ a))"
    proof (cases s1)
      case Nil
      then show ?thesis using r(3) by simp
    next
      case (Cons x xs)
      then have "isWhiteSpace x" using w(1) by simp
      then show ?thesis using digit_not_ws[of x] Cons by auto
    qed
    from takeWhile_prefix[OF d(3) this] show ?thesis .
  qed
  have "rxmatch (Rx isDigit 1 (Some 2) True # [Rx isWhiteSpace 0 None False, Rx sep lo (Some 1) False,
                  Rx isWhiteSpace 0 None False, Rx isDigit 1 None True]) (d @ s1 @ r # s2 @ a)
        = Some (if True then take (length d) (d @ s1 @ r # s2 @ a) # [a] else [a])"
  proof (rule rxmatch_greedy)
    show "length d = (case Some 2 of None \<Rightarrow> length (takeWhile isDigit (d @ s1 @ r # s2 @ a))
                      | Some h \<Rightarrow> min h (length (takeWhile isDigit (d @ s1 @ r # s2 @ a))))"
      unfolding tw1 using d(2) by simp
    show "1 \<le> length d" using d(1) by (simp add: Suc_le_eq)
    show "rxmatch [Rx isWhiteSpace 0 None False, Rx sep lo (Some 1) False,
                   Rx isWhiteSpace 0 None False, Rx isDigit 1 None True]
            (drop (length d) (d @ s1 @ r # s2 @ a)) = Some [a]"
      using e2 by simp
  qed
  then show ?thesis by simp
qed

text \<open>Pure concatenation: the first pattern takes two digits and leaves the rest as amount.\<close>

lemma rxmatch_concatenated:
  assumes "isDigit d1" "isDigit d2" "ds \<noteq> []" "list_all isDigit ds"
  shows "rxmatch reDelimited (d1 # d2 # ds) = Some [[d1, d2], ds]"
proof -
  let ?sep = "\<lambda>c. c = 45 \<or> c = 95 \<or> c = 100 \<or> c = 68"
  obtain e es where ds: "ds = e # es" using assms(3) by (cases ds) auto
  have e: "isDigit e" using assms(4) by (simp add: ds)
  have ew: "\<not> isWhiteSpace e" using e by (rule digit_not_ws)
  have nsep: "\<not> ?sep e" using e by (auto simp: isDigit_def)
  have e4: "rxmatch [Rx isWhiteSpace 0 None False, Rx isDigit 1 None True] ([] @ ds) = Some [ds]"
  proof (rule rxmatch_ws_then)
    show "list_all isWhiteSpace []" by simp
    show "ds = [] \<or> \<not> isWhiteSpace (hd ds)" using ew by (simp add: ds)
    show "rxmatch [Rx isDigit 1 None True] ds = Some [ds]" by (rule rxmatch_last_digits[OF assms(3,4)])
  qed
  have tw3: "takeWhile ?sep ds = []" using nsep by (simp add: ds)
  have e3: "rxmatch [Rx ?sep 0 (Some 1) False, Rx isWhiteSpace 0 None False, Rx isDigit 1 None True] ds
            = Some [ds]"
  proof -
    have "rxmatch (Rx ?sep 0 (Some 1) False # [Rx isWhiteSpace 0 None False, Rx isDigit 1 None True]) ds
          = Some (if False then take 0 ds # [ds] else [ds])"
    proof (rule rxmatch_greedy)
      show "0 = (case Some 1 of None \<Rightarrow> length (takeWhile ?sep ds)
                 | Some h \<Rightarrow> min h (length (takeWhile ?sep ds)))"
        unfolding tw3 by simp
      show "(0::nat) \<le> 0" by simp
      show "rxmatch [Rx isWhiteSpace 0 None False, Rx isDigit 1 None True] (drop 0 ds) = Some [ds]"
        using e4 by simp
    qed
    then show ?thesis by simp
  qed
  have e2: "rxmatch [Rx isWhiteSpace 0 None False, Rx ?sep 0 (Some 1) False,
                     Rx isWhiteSpace 0 None False, Rx isDigit 1 None True] ([] @ ds) = Some [ds]"
  proof (rule rxmatch_ws_then)
    show "list_all isWhiteSpace []" by simp
    show "ds = [] \<or> \<not> isWhiteSpace (hd ds)" using ew by (simp add: ds)
    show "rxmatch [Rx ?sep 0 (Some 1) False, Rx isWhiteSpace 0 None False, Rx isDigit 1 None True] ds
          = Some [ds]" by (rule e3)
  qed
  have tw1: "takeWhile isDigit (d1 # d2 # ds) = d1 # d2 # ds"
    using assms by (simp add: list_all_iff)
  have "rxmatch (Rx isDigit 1 (Some 2) True # [Rx isWhiteSpace 0 None False, Rx ?sep 0 (Some 1) False,
                  Rx isWhiteSpace 0 None False, Rx isDigit 1 None True]) (d1 # d2 # ds)
        = Some (if True then take 2 (d1 # d2 # ds) # [ds] else [ds])"
  proof (rule rxmatch_greedy)
    show "2 = (case Some 2 of None \<Rightarrow> length (takeWhile isDigit (d1 # d2 # ds))
               | Some h \<Rightarrow> min h (length (takeWhile isDigit (d1 # d2 # ds))))"
      unfolding tw1 by simp
    show "(1::nat) \<le> 2" by simp
    show "rxmatch [Rx isWhiteSpace 0 None False, Rx ?sep 0 (Some 1) False,
                   Rx isWhiteSpace 0 None False, Rx isDigit 1 None True] (drop 2 (d1 # d2 # ds)) = Some [ds]"
      using e2 by simp
  qed
  then show ?thesis by (simp add: reDelimited_def)
qed

subsection \<open>Parts of a message\<close>

lemma match_None_of_char:
  assumes "c \<in> set s" "\<forall>it\<in>set re. \<not> rxAccepts it c"
  shows "match s re = None"
proof (cases "rxmatch re s")
  case None
  then show ?thesis by (simp add: match_def)
next
  case (Some gs)
  from rxmatch_chars[OF Some assms(1)] assms(2) show ?thesis by blast
qed

lemma splitOn_nonempty: "splitOn p s \<noteq> []"
  by (induction s) (auto split: list.splits)

lemma splitOn_no_sep: "\<forall>c\<in>set s. \<not> p c \<Longrightarrow> splitOn p s = [s]"
  by (induction s) auto

lemma splitOn_append_sep: "p c \<Longrightarrow> splitOn p (s @ c # t) = splitOn p s @ splitOn p t"
proof (induction s)
  case Nil
  then show ?case by simp
next
  case (Cons x xs)
  then show ?case
    using splitOn_nonempty[of p xs] by (cases "splitOn p xs") auto
qed

lemma trim_id:
  assumes "s \<noteq> []" "\<not> isWhiteSpace (hd s)" "\<not> isWhiteSpace (last s)"
  shows "trim s = s"
proof -
  have 1: "dropWhile isWhiteSpace s = s" using assms(1,2) by (cases s) auto
  have "rev s \<noteq> []" "\<not> isWhiteSpace (hd (rev s))"
    using assms(1,3) by (simp_all add: hd_rev)
  then have 2: "dropWhile isWhiteSpace (rev s) = rev s" by (cases "rev s") auto
  show ?thesis by (simp add: trim_def 1 2)
qed

lemma messageParts_append:
  "c = 10 \<or> c = 44 \<Longrightarrow> messageParts (s @ c # t) = messageParts s @ messageParts t"
  by (simp add: messageParts_def splitOn_append_sep)

lemma parse_append:
  "c = 10 \<or> c = 44 \<Longrightarrow>
     parseMessageToBets (s @ c # t) = parseMessageToBets s @ parseMessageToBets t"
  by (simp add: parseMessageToBets_concat messageParts_append)

lemma messageParts_single:
  assumes "s \<noteq> []" "\<not> isWhiteSpace (hd s)" "\<not> isWhiteSpace (last s)"
    "\<forall>c\<in>set s. c \<noteq> 10 \<and> c \<noteq> 44"
  shows "messageParts s = [s]"
proof -
  have "splitOn (\<lambda>c. c = 10 \<or> c = 44) s = [s]"
    by (rule splitOn_no_sep) (use assms(4) in auto)
  then show ?thesis using trim_id[OF assms(1-3)] assms(1) by (simp add: messageParts_def)
qed

lemma parse_single:
  assumes "s \<noteq> []" "\<not> isWhiteSpace (hd s)" "\<not> isWhiteSpace (last s)"
    "\<forall>c\<in>set s. c \<noteq> 10 \<and> c \<noteq> 44"
  shows "parseMessageToBets s = parsePart s"
  by (simp add: parseMessageToBets_concat messageParts_single[OF assms])

lemma parseInt10_digits:
  assumes "a \<noteq> []" "list_all isDigit a"
  shows "parseInt10 a = rnd (of_nat (digitsValue a))"
proof -
  obtain a0 as where as: "a = a0 # as" using assms(1) by (cases a) auto
  have a0: "isDigit a0" using assms(2) by (simp add: as)
  then have nw: "\<not> isWhiteSpace a0" by (rule digit_not_ws)
  have ns: "a0 \<noteq> 43" "a0 \<noteq> 45" using a0 by (auto simp: isDigit_def)
  have tw: "takeWhile isDigit a = a" using assms(2) by (simp add: list_all_iff)
  have dw: "dropWhile isWhiteSpace a = a" using nw by (simp add: as)
  have hd: "hd a = a0" by (simp add: as)
  show ?thesis
    unfolding parseInt10_def dw Let_def using ns assms(1) by (simp add: hd tw)
qed

text \<open>The reverse-bet segment.\<close>

lemma parsePart_reverse:
  assumes d: "length d = 1 \<or> length d = 2" "list_all isDigit d"
    and r: "r = 114 \<or> r = 82"
    and w: "list_all isWhiteSpace ws1" "list_all isWhiteSpace ws2"
    and a: "a \<noteq> []" "list_all isDigit a"
  shows "parsePart (d @ ws1 @ [r] @ ws2 @ a)
         = [\<lparr>number = pad2 d, amount = parseInt10 a\<rparr>,
            \<lparr>number = reverse2 (pad2 d), amount = parseInt10 a\<rparr>]"
proof -
  define s1 where "s1 = (if ws1 = [] then [] else [32::nat])"
  define s2 where "s2 = (if ws2 = [] then [] else [32::nat])"
  define part where "part = d @ s1 @ [r] @ s2 @ a"
  have dne: "d \<noteq> []" using d(1) by auto
  have rw: "\<not> isWhiteSpace r" and rd: "\<not> isDigit r"
    using r by (auto simp: isWhiteSpace_def isDigit_def)
  have col: "collapseSpaces (d @ ws1 @ [r] @ ws2 @ a) = part"
    unfolding part_def s1_def s2_def
    by (rule collapseSpaces_pair[OF dne d(2) a w rw])
  have sw: "list_all isWhiteSpace s1" "list_all isWhiteSpace s2"
    by (simp_all add: s1_def s2_def isWhiteSpace_def)
  have "r \<in> set part" by (simp add: part_def)
  moreover have "\<forall>it\<in>set reDelimited. \<not> rxAccepts it r"
    using r rw rd by (auto simp: reDelimited_def)
  ultimately have m1: "match part reDelimited = None" by (rule match_None_of_char)
  have "rxmatch reReverse part = Some [d, a]"
    unfolding reReverse_def part_def
  proof (rule rxmatch_separated)
    show "d \<noteq> []" by (rule dne)
    show "length d \<le> 2" using d(1) by auto
    show "list_all isDigit d" by (rule d(2))
    show "a \<noteq> []" by (rule a(1))
    show "list_all isDigit a" by (rule a(2))
    show "list_all isWhiteSpace s1" "list_all isWhiteSpace s2" by (rule sw)+
    show "r = 114 \<or> r = 82" by (rule r)
    show "\<not> isWhiteSpace r" by (rule rw)
    show "\<not> isDigit r" by (rule rd)
    show "\<And>c. c = 114 \<or> c = 82 \<Longrightarrow> \<not> isWhiteSpace c \<and> \<not> isDigit c"
      by (auto simp: isWhiteSpace_def isDigit_def)
    show "(1::nat) \<le> 1" by simp
  qed
  then have m2: "match part reReverse = Some [part, d, a]" by (simp add: match_def)
  show ?thesis
    unfolding parsePart_def col Let_def m1 m2 by simp
qed

lemma parsePart_concatenated:
  assumes "isDigit d1" "isDigit d2" "ds \<noteq> []" "list_all isDigit ds"
  shows "parsePart (d1 # d2 # ds) = [\<lparr>number = [d1, d2], amount = parseInt10 ds\<rparr>]"
proof -
  have "\<forall>c\<in>set (d1 # d2 # ds). \<not> isWhiteSpace c"
    using assms digit_not_ws by (auto simp: list_all_iff)
  then have col: "collapseSpaces (d1 # d2 # ds) = d1 # d2 # ds"
    unfolding collapseSpaces_def by (rule collapseFrom_nonws_all)
  have m: "match (d1 # d2 # ds) reDelimited = Some [d1 # d2 # ds, [d1, d2], ds]"
    by (simp add: match_def rxmatch_concatenated[OF assms])
  show ?thesis
    unfolding parsePart_def col Let_def m by (simp add: pad2_def)
qed

lemma parsePart_Nil_iff: "parsePart p = [] \<longleftrightarrow> unrecognized p"
  by (auto simp: parsePart_def unrecognized_def Let_def split: option.splits)

lemma parse_Nil_iff:
  "parseMessageToBets text = [] \<longleftrightarrow> (\<forall>p\<in>set (messageParts text). unrecognized p)"
  by (simp add: parseMessageToBets_concat parsePart_Nil_iff)

lemma collapseFrom_keeps:
  "c \<in> set p \<Longrightarrow> \<not> isWhiteSpace c \<Longrightarrow> c \<in> set (collapseFrom b p)"
  by (induction p arbitrary: b) auto

lemma unrecognized_of_char:
  assumes "c \<in> set p" "\<not> isWhiteSpace c" "\<not> isDigit c"
    "c \<notin> {45, 95, 100, 68, 114, 82, 61}"
  shows "unrecognized p"
proof -
  have c: "c \<in> set (collapseSpaces p)"
    unfolding collapseSpaces_def by (rule collapseFrom_keeps[OF assms(1,2)])
  have 1: "match (collapseSpaces p) reDelimited = None"
    by (rule match_None_of_char[OF c]) (use assms(2-4) in \<open>simp add: reDelimited_def\<close>)
  have 2: "match (collapseSpaces p) reReverse = None"
    by (rule match_None_of_char[OF c]) (use assms(2-4) in \<open>simp add: reReverse_def\<close>)
  have 3: "match (collapseSpaces p) reEquals = None"
    by (rule match_None_of_char[OF c]) (use assms(2-4) in \<open>simp add: reEquals_def\<close>)
  have 4: "match (collapseSpaces p) reSpaced = None"
    by (rule match_None_of_char[OF c]) (use assms(2-4) in \<open>simp add: reSpaced_def\<close>)
  show ?thesis
    unfolding unrecognized_def Let_def using 1 2 3 4 by simp
qed

subsection \<open>First-appearance order\<close>

lemma set_firstSeen [simp]: "set (firstSeen xs) = set xs"
  by (induction xs) auto

lemma distinct_firstSeen [simp]: "distinct (firstSeen xs)"
  by (induction xs) auto

lemma firstSeen_snoc:
  "firstSeen (xs @ [x]) = (if x \<in> set xs then firstSeen xs else firstSeen xs @ [x])"
  by (induction xs) auto

subsection \<open>Objects\<close>

lemma getProp_setProp:
  "getProp (setProp obj k v) k' = (if k' = k then Some v else getProp obj k')"
  by (induction obj) (auto simp: getProp_def)

lemma keys_setProp:
  "map fst (setProp obj k v) = (if k \<in> set (map fst obj) then map fst obj else map fst obj @ [k])"
  by (induction obj) auto

lemma getProp_None_iff: "getProp obj k = None \<longleftrightarrow> k \<notin> set (map fst obj)"
  by (simp add: getProp_def map_of_eq_None_iff)

lemma setProp_setProp: "setProp (setProp obj k v) k w = setProp obj k w"
  by (induction obj) auto

text \<open>
  A loop that, for each element, reads the property under the element's key and stores
  a new value computed from it: the keys appear in first-appearance order, and the value
  under a key is the fold of that computation over the elements with this key.
\<close>

lemma keyed_fold_snoc:
  "foldl (\<lambda>obj x. setProp obj (key x) (g x (getProp obj (key x)))) obj0 (xs @ [x])
   = (let obj = foldl (\<lambda>obj x. setProp obj (key x) (g x (getProp obj (key x)))) obj0 xs
      in setProp obj (key x) (g x (getProp obj (key x))))"
  by (simp add: Let_def)

lemma keyed_fold_keys:
  "map fst (foldl (\<lambda>obj x. setProp obj (key x) (g x (getProp obj (key x)))) [] xs)
   = firstSeen (map key xs)"
proof (induction xs rule: rev_induct)
  case Nil
  then show ?case by simp
next
  case (snoc x xs)
  show ?case
    unfolding keyed_fold_snoc Let_def
    by (simp add: keys_setProp snoc.IH firstSeen_snoc)
qed

lemma keyed_fold_get:
  "getProp (foldl (\<lambda>obj x. setProp obj (key x) (g x (getProp obj (key x)))) [] xs) k
   = foldl (\<lambda>p x. Some (g x p)) None (filter (\<lambda>x. key x = k) xs)"
proof (induction xs arbitrary: k rule: rev_induct)
  case Nil
  then show ?case by (simp add: getProp_def)
next
  case (snoc x xs)
  show ?case
    unfolding keyed_fold_snoc Let_def getProp_setProp
    by (simp add: snoc.IH)
qed

lemma foldl_option_state:
  assumes "\<And>x. g x None = h init x" "\<And>x t. g x (Some t) = h t x"
  shows "foldl (\<lambda>p x. Some (g x p)) None xs = (if xs = [] then None else Some (foldl h init xs))"
proof (induction xs rule: rev_induct)
  case Nil
  then show ?case by simp
next
  case (snoc x xs)
  then show ?case using assms by (cases "xs = []") simp_all
qed

text \<open>An object whose keys are distinct lists its values under its keys.\<close>

lemma object_tabulate:
  assumes "distinct (map fst obj)"
  shows "obj = map (\<lambda>k. (k, the (getProp obj k))) (map fst obj)"
proof -
  have "(fst p, the (getProp obj (fst p))) = p" if "p \<in> set obj" for p
  proof -
    have "(fst p, snd p) \<in> set obj" using that by simp
    then have "map_of obj (fst p) = Some (snd p)" by (rule map_of_is_SomeI[OF assms])
    then show ?thesis by (simp add: getProp_def)
  qed
  then have "map (\<lambda>p. (fst p, the (getProp obj (fst p)))) obj = obj"
    by (rule map_idI)
  then show ?thesis by (simp add: comp_def)
qed

text \<open>A two-character key, such as every number the parser produces, is \<open>protoFree\<close>.\<close>

lemma two_chars_protoFree: "length k = 2 \<Longrightarrow> protoFree k"
  by (auto simp: protoFree_def objectPrototypeKeys_def js_def)

lemma parsed_number_protoFree:
  "b \<in> set (parseMessageToBets text) \<Longrightarrow> protoFree (number b)"
  using parse_number_two_digits two_chars_protoFree by blast

subsection \<open>The order of enumeration\<close>

lemma set_propertyOrder [simp]: "set (propertyOrder ks) = set ks"
  by (auto simp: propertyOrder_def)

lemma distinct_propertyOrder: "distinct ks \<Longrightarrow> distinct (propertyOrder ks)"
  by (auto simp: propertyOrder_def)

lemma propertyOrder_no_index:
  "\<forall>k\<in>set ks. \<not> isArrayIndex k \<Longrightarrow> propertyOrder ks = ks"
  by (simp add: propertyOrder_def)

lemma insort_key_map:
  "map g (insort_key (\<lambda>x. f (g x)) x xs) = insort_key f (g x) (map g xs)"
  by (induction xs) auto

lemma sort_key_map:
  "map g (sort_key (\<lambda>x. f (g x)) xs) = sort_key f (map g xs)"
  by (induction xs) (auto simp: insort_key_map)

lemma ObjectEntries_tabulate:
  "ObjectEntries (map (\<lambda>k. (k, v k)) ks) = map (\<lambda>k. (k, v k)) (propertyOrder ks)"
proof -
  have "sort_key (\<lambda>p. digitsValue (fst p)) (map (\<lambda>k. (k, v k)) (filter isArrayIndex ks))
        = map (\<lambda>k. (k, v k)) (sort_key digitsValue (filter isArrayIndex ks))"
    using sort_key_map[of "\<lambda>k. (k, v k)" "\<lambda>p. digitsValue (fst p)" "filter isArrayIndex ks"]
    by simp
  then show ?thesis
    by (simp add: ObjectEntries_def propertyOrder_def filter_map comp_def)
qed

lemma sortDefault_distinct:
  assumes "distinct ks"
  shows "sortDefault (propertyOrder ks) = sorted_list_of_set (set ks)"
proof -
  have "sorted_list_of_set (set (propertyOrder ks)) = sort (remdups (propertyOrder ks))"
    by (rule sorted_list_of_set_sort_remdups)
  then show ?thesis
    using distinct_propertyOrder[OF assms] by (simp add: sortDefault_def distinct_remdups_id)
qed

subsection \<open>Total mode\<close>

lemma totalAgg_keyed:
  "totalAgg rows
   = foldl (\<lambda>obj r. setProp obj (number r)
        ((\<lambda>r p. jsadd (orZeroProp p) (orZero (Number (amount r)))) r (getProp obj (number r))))
       [] rows"
  by (simp add: totalAgg_def totalStep_def[abs_def])

lemma keys_totalAgg: "map fst (totalAgg rows) = firstSeen (map number rows)"
  unfolding totalAgg_keyed by (rule keyed_fold_keys)

lemma getProp_totalAgg:
  "getProp (totalAgg rows) n
   = (if n \<in> number ` set rows then Some (groupTotal n rows) else None)"
proof -
  have "getProp (totalAgg rows) n
      = foldl (\<lambda>p r. Some (jsadd (orZeroProp p) (orZero (Number (amount r))))) None
          (filter (\<lambda>r. number r = n) rows)"
    unfolding totalAgg_keyed by (rule keyed_fold_get)
  also have "\<dots> = (if filter (\<lambda>r. number r = n) rows = [] then None
                     else Some (groupTotal n rows))"
    unfolding groupTotal_def
    by (rule foldl_option_state) (simp_all add: orZeroProp_def orZero_def)
  also have "filter (\<lambda>r. number r = n) rows = [] \<longleftrightarrow> n \<notin> number ` set rows"
    by (auto simp: filter_empty_conv)
  finally show ?thesis by simp
qed

lemma totalLines_eq:
  "totalLines rows
   = map (\<lambda>n. n @ js '' - '' @ NumberToString (groupTotal n rows))
       (sorted_list_of_set (number ` set rows))"
proof -
  have keys: "sortDefault (ObjectKeys (totalAgg rows)) = sorted_list_of_set (number ` set rows)"
    unfolding ObjectKeys_def keys_totalAgg
    using sortDefault_distinct[of "firstSeen (map number rows)"] by simp
  show ?thesis
    unfolding totalLines_def Let_def keys
    by (rule map_cong) (simp_all add: getProp_totalAgg propToString_def)
qed

subsection \<open>Per-sender mode\<close>

lemma perUserStep_eq:
  "perUserStep mp r
   = setProp mp (number r)
       (senderStep (case getProp mp (number r) of None \<Rightarrow> [] | Some inner \<Rightarrow> inner) r)"
  by (simp add: perUserStep_def Let_def getProp_setProp setProp_setProp senderStep_def)

lemma perUserAgg_keyed:
  "perUserAgg rows
   = foldl (\<lambda>obj r. setProp obj (number r)
        ((\<lambda>r p. senderStep (case p of None \<Rightarrow> [] | Some inner \<Rightarrow> inner) r)
           r (getProp obj (number r))))
       [] rows"
  by (simp add: perUserAgg_def perUserStep_eq[abs_def])

lemma keys_perUserAgg: "map fst (perUserAgg rows) = firstSeen (map number rows)"
  unfolding perUserAgg_keyed by (rule keyed_fold_keys)

lemma getProp_perUserAgg:
  "getProp (perUserAgg rows) n
   = (if n \<in> number ` set rows
      then Some (foldl senderStep [] (filter (\<lambda>r. number r = n) rows)) else None)"
proof -
  have "getProp (perUserAgg rows) n
      = foldl (\<lambda>p r. Some (senderStep (case p of None \<Rightarrow> [] | Some inner \<Rightarrow> inner) r)) None
          (filter (\<lambda>r. number r = n) rows)"
    unfolding perUserAgg_keyed by (rule keyed_fold_get)
  also have "\<dots> = (if filter (\<lambda>r. number r = n) rows = [] then None
                     else Some (foldl senderStep [] (filter (\<lambda>r. number r = n) rows)))"
    by (rule foldl_option_state) simp_all
  also have "filter (\<lambda>r. number r = n) rows = [] \<longleftrightarrow> n \<notin> number ` set rows"
    by (auto simp: filter_empty_conv)
  finally show ?thesis by simp
qed

lemma senderAgg_keyed:
  "foldl senderStep [] rs
   = foldl (\<lambda>obj r. setProp obj (sender r)
        ((\<lambda>r p. jsadd (orZeroProp p) (Number (orZeroVal (amount r)))) r (getProp obj (sender r))))
       [] rs"
  by (simp add: senderStep_def[abs_def])

lemma keys_senderAgg: "map fst (foldl senderStep [] rs) = firstSeen (map sender rs)"
  unfolding senderAgg_keyed by (rule keyed_fold_keys)

lemma getProp_senderAgg:
  assumes "s \<in> sender ` set rs"
  shows "getProp (foldl senderStep [] rs) s
         = Some (foldl (\<lambda>t r. jsadd (orZero t) (Number (orZeroVal (amount r)))) (Fin 0)
                   (filter (\<lambda>r. sender r = s) rs))"
proof -
  have "getProp (foldl senderStep [] rs) s
      = foldl (\<lambda>p r. Some (jsadd (orZeroProp p) (Number (orZeroVal (amount r))))) None
          (filter (\<lambda>r. sender r = s) rs)"
    unfolding senderAgg_keyed by (rule keyed_fold_get)
  also have "\<dots> = (if filter (\<lambda>r. sender r = s) rs = [] then None
       else Some (foldl (\<lambda>t r. jsadd (orZero t) (Number (orZeroVal (amount r)))) (Fin 0)
                    (filter (\<lambda>r. sender r = s) rs)))"
    by (rule foldl_option_state) (simp_all add: orZeroProp_def orZero_def)
  finally have eq: "getProp (foldl senderStep [] rs) s
      = (if filter (\<lambda>r. sender r = s) rs = [] then None
         else Some (foldl (\<lambda>t r. jsadd (orZero t) (Number (orZeroVal (amount r)))) (Fin 0)
                      (filter (\<lambda>r. sender r = s) rs)))" .
  have "filter (\<lambda>r. sender r = s) rs \<noteq> []"
    using assms by (auto simp: filter_empty_conv)
  with eq show ?thesis by simp
qed

text \<open>The inner object of a number: the senders in first-appearance order with their sums.\<close>

lemma inner_object:
  "foldl senderStep [] (filter (\<lambda>r. number r = n) rows)
   = map (\<lambda>s. (s, senderTotal n s rows)) (sendersOf n rows)"
proof -
  let ?rs = "filter (\<lambda>r. number r = n) rows"
  let ?obj = "foldl senderStep [] ?rs"
  have keys: "map fst ?obj = sendersOf n rows"
    by (simp add: keys_senderAgg sendersOf_def)
  have "distinct (map fst ?obj)" by (simp add: keys sendersOf_def)
  then have "?obj = map (\<lambda>k. (k, the (getProp ?obj k))) (map fst ?obj)"
    by (rule object_tabulate)
  also have "\<dots> = map (\<lambda>s. (s, senderTotal n s rows)) (sendersOf n rows)"
    unfolding keys
  proof (rule map_cong[OF refl])
    fix s assume "s \<in> set (sendersOf n rows)"
    then have "s \<in> sender ` set ?rs" by (simp add: sendersOf_def)
    from getProp_senderAgg[OF this]
    show "(s, the (getProp ?obj s)) = (s, senderTotal n s rows)"
      by (simp add: senderTotal_def conj_commute)
  qed
  finally show ?thesis .
qed

lemma perUserLine_eq:
  assumes "n \<in> number ` set rows"
  shows "perUserLine (perUserAgg rows) n
         = n @ js '' -> ''
             @ join (js ''; '')
                 (map (\<lambda>s. s @ js '': '' @ NumberToString (senderTotal n s rows))
                      (propertyOrder (sendersOf n rows)))"
  using assms
  by (simp add: perUserLine_def getProp_perUserAgg inner_object ObjectEntries_tabulate comp_def)

lemma perUserLines_eq:
  "perUserLines rows
   = map (\<lambda>n. n @ js '' -> ''
                 @ join (js ''; '')
                     (map (\<lambda>s. s @ js '': '' @ NumberToString (senderTotal n s rows))
                          (propertyOrder (sendersOf n rows))))
       (sorted_list_of_set (number ` set rows))"
proof -
  have keys: "sortDefault (ObjectKeys (perUserAgg rows)) = sorted_list_of_set (number ` set rows)"
    unfolding ObjectKeys_def keys_perUserAgg
    using sortDefault_distinct[of "firstSeen (map number rows)"] by simp
  show ?thesis
    unfolding perUserLines_def Let_def keys
    by (rule map_cong) (simp_all add: perUserLine_eq)
qed

subsection \<open>Exact sums\<close>

lemma orZero_Fin [simp]: "orZero (Fin q) = Fin q"
  by (simp add: orZero_def)

lemma StringToNumber_empty: "StringToNumber [] = Fin 0"
  by (simp add: StringToNumber_def trim_def)

lemma Number_orZeroVal:
  assumes "Number v = Fin q"
  shows "Number (orZeroVal v) = Fin q"
proof (cases "truthy v")
  case True
  then show ?thesis using assms by (simp add: orZeroVal_def)
next
  case False
  then have "Number v = Fin 0"
    using assms by (cases v) (auto simp: StringToNumber_empty split: if_splits)
  then show ?thesis using assms False by (simp add: orZeroVal_def)
qed

lemma foldl_jsadd_safe:
  assumes "\<bar>a\<bar> + sum_list (map abs ks) \<le> 2 ^ 53"
  shows "foldl (\<lambda>t k. jsadd (orZero t) (Fin (of_int k))) (Fin (of_int a)) ks
         = Fin (of_int (a + sum_list ks))"
  using assms
proof (induction ks arbitrary: a)
  case Nil
  then show ?case by simp
next
  case (Cons k ks)
  have nn: "0 \<le> sum_list (map abs ks)" by (induction ks) auto
  have b: "\<bar>a + k\<bar> \<le> 2 ^ 53" using Cons.prems nn by simp
  have "\<bar>a + k\<bar> + sum_list (map abs ks) \<le> 2 ^ 53" using Cons.prems by simp
  from Cons.IH[OF this] show ?case
    by (simp add: jsadd_safe[OF b] add.assoc del: jsadd.simps)
qed

lemma sum_abs_filter_le:
  "sum_list (map (\<lambda>r. \<bar>f r :: int\<bar>) (filter P rs)) \<le> sum_list (map (\<lambda>r. \<bar>f r\<bar>) rs)"
  by (induction rs) auto

lemma groupFold_safe:
  assumes "list_all (\<lambda>r. c r = Fin (of_int (f r))) rs"
    and "sum_list (map (\<lambda>r. \<bar>f r\<bar>) rs) \<le> 2 ^ 53"
  shows "foldl (\<lambda>t r. jsadd (orZero t) (c r)) (Fin 0) rs = Fin (of_int (sum_list (map f rs)))"
proof -
  have "foldl (\<lambda>t r. jsadd (orZero t) (c r)) t0 rs
        = foldl (\<lambda>t k. jsadd (orZero t) (Fin (of_int k))) t0 (map f rs)" for t0
    using assms(1) by (induction rs arbitrary: t0) (simp_all del: jsadd.simps)
  from this[of "Fin 0"] foldl_jsadd_safe[of 0 "map f rs"] assms(2)
  show ?thesis by (simp add: comp_def del: jsadd.simps)
qed

lemma foldl_jsadd_plain:
  assumes "\<bar>a\<bar> + sum_list (map abs ks) \<le> 2 ^ 53"
  shows "foldl jsadd (Fin (of_int a)) (map (\<lambda>k. Fin (of_int k)) ks) = Fin (of_int (a + sum_list ks))"
  using assms
proof (induction ks arbitrary: a)
  case Nil
  then show ?case by simp
next
  case (Cons k ks)
  have nn: "0 \<le> sum_list (map abs ks)" by (induction ks) auto
  have b: "\<bar>a + k\<bar> \<le> 2 ^ 53" using Cons.prems nn by simp
  have "\<bar>a + k\<bar> + sum_list (map abs ks) \<le> 2 ^ 53" using Cons.prems by simp
  from Cons.IH[OF this] show ?case
    by (simp add: jsadd_safe[OF b] add.assoc del: jsadd.simps)
qed

lemma regroup_sum:
  fixes f :: "'a \<Rightarrow> int"
  assumes "finite S" "g ` set rs \<subseteq> S"
  shows "(\<Sum>s\<in>S. sum_list (map f (filter (\<lambda>r. g r = s) rs))) = sum_list (map f rs)"
  using assms(2)
proof (induction rs)
  case Nil
  then show ?case by simp
next
  case (Cons r rs)
  have "(\<Sum>s\<in>S. sum_list (map f (filter (\<lambda>x. g x = s) (r # rs))))
        = (\<Sum>s\<in>S. (if s = g r then f r else 0) + sum_list (map f (filter (\<lambda>x. g x = s) rs)))"
    by (rule sum.cong) auto
  also have "\<dots> = (\<Sum>s\<in>S. if s = g r then f r else 0)
                  + (\<Sum>s\<in>S. sum_list (map f (filter (\<lambda>x. g x = s) rs)))"
    by (rule sum.distrib)
  also have "(\<Sum>s\<in>S. if s = g r then f r else 0) = f r"
    using assms(1) Cons.prems by simp
  finally show ?case using Cons by simp
qed

lemma regroup_sum_list:
  fixes f :: "'a \<Rightarrow> int"
  assumes "distinct ss" "set ss = g ` set rs"
  shows "sum_list (map (\<lambda>s. sum_list (map f (filter (\<lambda>r. g r = s) rs))) ss) = sum_list (map f rs)"
proof -
  have "sum_list (map (\<lambda>s. sum_list (map f (filter (\<lambda>r. g r = s) rs))) ss)
        = (\<Sum>s\<in>set ss. sum_list (map f (filter (\<lambda>r. g r = s) rs)))"
    using assms(1) by (rule sum_list_distinct_conv_sum_set)
  also have "\<dots> = sum_list (map f rs)"
    by (rule regroup_sum) (simp_all add: assms(2))
  finally show ?thesis .
qed

lemma regroup_abs_le:
  fixes f :: "'a \<Rightarrow> int"
  assumes "distinct ss" "set ss = g ` set rs"
  shows "sum_list (map (\<lambda>s. \<bar>sum_list (map f (filter (\<lambda>r. g r = s) rs))\<bar>) ss)
         \<le> sum_list (map (\<lambda>r. \<bar>f r\<bar>) rs)"
proof -
  have "sum_list (map (\<lambda>s. \<bar>sum_list (map f (filter (\<lambda>r. g r = s) rs))\<bar>) ss)
        \<le> sum_list (map (\<lambda>s. sum_list (map (\<lambda>r. \<bar>f r\<bar>) (filter (\<lambda>r. g r = s) rs))) ss)"
  proof (rule sum_list_mono)
    fix s assume "s \<in> set ss"
    show "\<bar>sum_list (map f (filter (\<lambda>r. g r = s) rs))\<bar>
          \<le> sum_list (map (\<lambda>r. \<bar>f r\<bar>) (filter (\<lambda>r. g r = s) rs))"
      using sum_list_abs[of "map f (filter (\<lambda>r. g r = s) rs)"] by (simp add: comp_def)
  qed
  also have "\<dots> = sum_list (map (\<lambda>r. \<bar>f r\<bar>) rs)"
    by (rule regroup_sum_list[OF assms])
  finally show ?thesis .
qed

text \<open>With integer stakes in the exact range both modes compute the exact sums.\<close>

lemma groupTotal_exact:
  assumes "integerStakes rows" "totalMagnitude rows \<le> 2 ^ 53"
  shows "groupTotal n rows
         = Fin (of_int (sum_list (map (\<lambda>r. stakeOf (amount r)) (filter (\<lambda>r. number r = n) rows))))"
  unfolding groupTotal_def
proof (rule groupFold_safe)
  show "list_all (\<lambda>r. orZero (Number (amount r)) = Fin (of_int (stakeOf (amount r))))
          (filter (\<lambda>r. number r = n) rows)"
    using assms(1) by (auto simp: integerStakes_def list_all_iff)
  show "sum_list (map (\<lambda>r. \<bar>stakeOf (amount r)\<bar>) (filter (\<lambda>r. number r = n) rows)) \<le> 2 ^ 53"
    using sum_abs_filter_le[of "\<lambda>r. stakeOf (amount r)" "\<lambda>r. number r = n" rows] assms(2)
    by (simp add: totalMagnitude_def)
qed

lemma senderTotal_exact:
  assumes "integerStakes rows" "totalMagnitude rows \<le> 2 ^ 53"
  shows "senderTotal n s rows
         = Fin (of_int (sum_list (map (\<lambda>r. stakeOf (amount r))
                  (filter (\<lambda>r. number r = n \<and> sender r = s) rows))))"
  unfolding senderTotal_def
proof (rule groupFold_safe)
  show "list_all (\<lambda>r. Number (orZeroVal (amount r)) = Fin (of_int (stakeOf (amount r))))
          (filter (\<lambda>r. number r = n \<and> sender r = s) rows)"
    using assms(1) Number_orZeroVal by (auto simp: integerStakes_def list_all_iff)
  show "sum_list (map (\<lambda>r. \<bar>stakeOf (amount r)\<bar>) (filter (\<lambda>r. number r = n \<and> sender r = s) rows))
        \<le> 2 ^ 53"
    using sum_abs_filter_le[of "\<lambda>r. stakeOf (amount r)" "\<lambda>r. number r = n \<and> sender r = s" rows]
      assms(2)
    by (simp add: totalMagnitude_def)
qed

lemma modesAgree_exact:
  assumes n: "n \<in> number ` set rows"
    and st: "integerStakes rows" "totalMagnitude rows \<le> 2 ^ 53"
  shows "modesAgree rows n"
proof -
  let ?st = "\<lambda>r. stakeOf (amount r)"
  let ?grp = "filter (\<lambda>r. number r = n) rows"
  let ?ss = "propertyOrder (sendersOf n rows)"
  let ?P = "\<lambda>s. sum_list (map ?st (filter (\<lambda>r. sender r = s) ?grp))"
  have ss: "distinct ?ss" "set ?ss = sender ` set ?grp"
    by (simp_all add: distinct_propertyOrder sendersOf_def)
  have tot: "getProp (totalAgg rows) n = Some (Fin (of_int (sum_list (map ?st ?grp))))"
    using n by (simp add: getProp_totalAgg groupTotal_exact[OF st])
  have inner: "getProp (perUserAgg rows) n
               = Some (map (\<lambda>s. (s, senderTotal n s rows)) (sendersOf n rows))"
    using n by (simp add: getProp_perUserAgg inner_object)
  have "sumOverSenders (map (\<lambda>s. (s, senderTotal n s rows)) (sendersOf n rows))
        = foldl jsadd (Fin 0) (map (\<lambda>s. senderTotal n s rows) ?ss)"
    by (simp add: sumOverSenders_def ObjectEntries_tabulate comp_def)
  also have "map (\<lambda>s. senderTotal n s rows) ?ss = map (\<lambda>k. Fin (of_int k)) (map ?P ?ss)"
    by (simp add: senderTotal_exact[OF st] comp_def conj_commute)
  also have "foldl jsadd (Fin 0) (map (\<lambda>k. Fin (of_int k)) (map ?P ?ss))
             = Fin (of_int (0 + sum_list (map ?P ?ss)))"
  proof -
    have "sum_list (map abs (map ?P ?ss)) \<le> sum_list (map (\<lambda>r. \<bar>?st r\<bar>) ?grp)"
      using regroup_abs_le[OF ss, of ?st] by (simp add: comp_def)
    also have "\<dots> \<le> totalMagnitude rows"
      unfolding totalMagnitude_def by (rule sum_abs_filter_le)
    finally have "\<bar>0\<bar> + sum_list (map abs (map ?P ?ss)) \<le> 2 ^ 53" using st(2) by simp
    from foldl_jsadd_plain[OF this] show ?thesis by simp
  qed
  also have "sum_list (map ?P ?ss) = sum_list (map ?st ?grp)"
    by (rule regroup_sum_list[OF ss])
  finally show ?thesis
    by (simp add: modesAgree_def tot inner)
qed

subsection \<open>Evaluating small numbers\<close>

lemma rnd_numeral [simp]:
  "numeral k \<le> (2 ^ 53 :: int) \<Longrightarrow> rnd (numeral k) = Fin (numeral k)"
  using rnd_of_int_safe[of "numeral k"] by simp

lemma rnd_zero [simp]: "rnd 0 = Fin 0"
  by (simp add: rnd_def)

lemma rnd_one [simp]: "rnd 1 = Fin 1"
  using rnd_of_int_safe[of 1] by simp

lemma positiveToString_numeral [simp]:
  "numeral k \<le> (2 ^ 53 :: int) \<Longrightarrow> positiveToString (numeral k) = digitsOf (numeral k)"
proof -
  assume a: "numeral k \<le> (2 ^ 53 :: int)"
  have "(numeral k :: rat) = of_int (numeral k)" by simp
  also have "\<dots> \<le> of_int (2 ^ 53)" using a by (subst of_int_le_iff)
  finally have "(numeral k :: rat) \<le> 2 ^ 53" by simp
  then show ?thesis by (simp add: positiveToString_def isSafeInteger_def)
qed

lemma yangonShift_value: "yangonShift = Fin 23400000"
  by (simp add: yangonShift_def)

subsection \<open>The local-hour filter\<close>

lemma isBeforeNoonLocal_int:
  assumes "\<bar>t\<bar> \<le> 8640000000000000"
  shows "isBeforeNoonLocal (Fin (of_int t))
         = (\<bar>t + 23400000\<bar> \<le> 8640000000000000 \<and> localHourOfDay t < 12)"
proof -
  have b: "\<bar>t + 23400000\<bar> \<le> 2 ^ 53" using assms by simp
  have "jsadd (Fin (of_int t)) yangonShift = Fin (of_int (t + 23400000))"
    using jsadd_safe[OF b] by (simp add: yangonShift_value del: jsadd.simps)
  moreover have "(\<bar>(of_int (t + 23400000) :: rat)\<bar> \<le> 8640000000000000)
                 = (\<bar>t + 23400000\<bar> \<le> 8640000000000000)"
  proof -
    have "\<bar>(of_int (t + 23400000) :: rat)\<bar> = of_int \<bar>t + 23400000\<bar>" by simp
    moreover have "(8640000000000000 :: rat) = of_int 8640000000000000" by simp
    ultimately show ?thesis by (simp only: of_int_le_iff)
  qed
  moreover have "((of_int (localHourOfDay t) :: rat) < 12) = (localHourOfDay t < 12)"
  proof -
    have "(12 :: rat) = of_int 12" by simp
    then show ?thesis by (simp only: of_int_less_iff)
  qed
  ultimately show ?thesis
    by (simp add: isBeforeNoonLocal_def TimeClip_def getUTCHours_def Let_def localHourOfDay_def
             del: jsadd.simps of_int_add)
qed

lemma rnd_2p53_plus1: "rnd 9007199254740993 = Fin 9007199254740992"
proof -
  have fl: "floorlog 2 (9007199254740993::nat) = 54"
    by (simp add: compute_floorlog)
  have il: "ilog 2 9007199254740993 = 53"
    using ilog2_of_nat[of 9007199254740993] by (simp add: fl)
  have f: "\<lfloor>(9007199254740993::rat) / 2\<rfloor> = 4503599627370496"
    by (rule floor_unique) simp_all
  show ?thesis
    by (simp add: rnd_def il Let_def ipow_def roundHalfEven_def f)
qed

lemma rnd_2p53_plus2: "rnd 9007199254740994 = Fin 9007199254740994"
proof -
  have fl: "floorlog 2 (9007199254740994::nat) = 54"
    by (simp add: compute_floorlog)
  have il: "ilog 2 9007199254740994 = 53"
    using ilog2_of_nat[of 9007199254740994] by (simp add: fl)
  have f: "\<lfloor>(4503599627370497::rat)\<rfloor> = 4503599627370497"
    by simp
  show ?thesis
    by (simp add: rnd_def il Let_def ipow_def roundHalfEven_def f)
qed

lemma sorted_keys:
  "sortDefault (propertyOrder (firstSeen ks)) = sort (remdups ks)"
proof -
  have "sortDefault (propertyOrder (firstSeen ks)) = sorted_list_of_set (set (firstSeen ks))"
    by (rule sortDefault_distinct) simp
  also have "\<dots> = sort (remdups ks)"
    by (simp add: sorted_list_of_set_sort_remdups)
  finally show ?thesis .
qed

lemma totalLines_sorted:
  "totalLines rows
   = map (\<lambda>n. n @ js '' - '' @ NumberToString (groupTotal n rows))
       (sort (remdups (map number rows)))"
  using totalLines_eq[of rows] by (simp add: sorted_list_of_set_sort_remdups[symmetric])

lemma perUserLines_sorted:
  "perUserLines rows = map (senderLine propertyOrder rows) (sort (remdups (map number rows)))"
  using perUserLines_eq[of rows]
  by (simp add: sorted_list_of_set_sort_remdups[symmetric] senderLine_def[abs_def])

lemma parsePart_delimited:
  assumes d: "length d = 1 \<or> length d = 2" "list_all isDigit d"
    and r: "r = 45 \<or> r = 95 \<or> r = 100 \<or> r = 68"
    and w: "list_all isWhiteSpace ws1" "list_all isWhiteSpace ws2"
    and a: "a \<noteq> []" "list_all isDigit a"
  shows "parsePart (d @ ws1 @ [r] @ ws2 @ a) = [\<lparr>number = pad2 d, amount = parseInt10 a\<rparr>]"
proof -
  define s1 where "s1 = (if ws1 = [] then [] else [32::nat])"
  define s2 where "s2 = (if ws2 = [] then [] else [32::nat])"
  define part where "part = d @ s1 @ [r] @ s2 @ a"
  have dne: "d \<noteq> []" using d(1) by auto
  have rw: "\<not> isWhiteSpace r" and rd: "\<not> isDigit r"
    using r by (auto simp: isWhiteSpace_def isDigit_def)
  have col: "collapseSpaces (d @ ws1 @ [r] @ ws2 @ a) = part"
    unfolding part_def s1_def s2_def
    by (rule collapseSpaces_pair[OF dne d(2) a w rw])
  have sw: "list_all isWhiteSpace s1" "list_all isWhiteSpace s2"
    by (simp_all add: s1_def s2_def isWhiteSpace_def)
  have "rxmatch reDelimited part = Some [d, a]"
    unfolding reDelimited_def part_def
  proof (rule rxmatch_separated)
    show "d \<noteq> []" by (rule dne)
    show "length d \<le> 2" using d(1) by auto
    show "list_all isDigit d" by (rule d(2))
    show "a \<noteq> []" by (rule a(1))
    show "list_all isDigit a" by (rule a(2))
    show "list_all isWhiteSpace s1" "list_all isWhiteSpace s2" by (rule sw)+
    show "r = 45 \<or> r = 95 \<or> r = 100 \<or> r = 68" by (rule r)
    show "\<not> isWhiteSpace r" by (rule rw)
    show "\<not> isDigit r" by (rule rd)
    show "\<And>c. c = 45 \<or> c = 95 \<or> c = 100 \<or> c = 68 \<Longrightarrow> \<not> isWhiteSpace c \<and> \<not> isDigit c"
      by (auto simp: isWhiteSpace_def isDigit_def)
    show "(0::nat) \<le> 1" by simp
  qed
  then have m: "match part reDelimited = Some [part, d, a]" by (simp add: match_def)
  show ?thesis
    unfolding parsePart_def col Let_def m by simp
qed

lemmas evalText = js_def isDigit_def isWhiteSpace_def pad2_def reverse2_def digitsValue_def

subsection \<open>The other patterns\<close>

lemma rxmatch_spaced:
  assumes d: "d \<noteq> []" "length d \<le> 2" "list_all isDigit d"
    and a: "a \<noteq> []" "list_all isDigit a"
    and w: "w \<noteq> []" "list_all isWhiteSpace w"
  shows "rxmatch reDelimited (d @ w @ a) = Some [d, a]"
proof -
  let ?sep = "\<lambda>c. c = 45 \<or> c = 95 \<or> c = 100 \<or> c = 68"
  obtain e es where as: "a = e # es" using a(1) by (cases a) auto
  have e: "isDigit e" using a(2) by (simp add: as)
  have ew: "\<not> isWhiteSpace e" using e by (rule digit_not_ws)
  have nsep: "\<not> ?sep e" using e by (auto simp: isDigit_def)
  obtain w0 ws where ws: "w = w0 # ws" using w(1) by (cases w) auto
  have w0: "isWhiteSpace w0" using w(2) by (simp add: ws)
  have w0d: "\<not> isDigit w0" using w0 digit_not_ws by blast
  have e4: "rxmatch [Rx isWhiteSpace 0 None False, Rx isDigit 1 None True] ([] @ a) = Some [a]"
  proof (rule rxmatch_ws_then)
    show "list_all isWhiteSpace []" by simp
    show "a = [] \<or> \<not> isWhiteSpace (hd a)" using ew by (simp add: as)
    show "rxmatch [Rx isDigit 1 None True] a = Some [a]" by (rule rxmatch_last_digits[OF a])
  qed
  have tw3: "takeWhile ?sep a = []" using nsep by (simp add: as)
  have e3: "rxmatch [Rx ?sep 0 (Some 1) False, Rx isWhiteSpace 0 None False, Rx isDigit 1 None True] a
            = Some [a]"
  proof -
    have "rxmatch (Rx ?sep 0 (Some 1) False # [Rx isWhiteSpace 0 None False, Rx isDigit 1 None True]) a
          = Some (if False then take 0 a # [a] else [a])"
    proof (rule rxmatch_greedy)
      show "0 = (case Some 1 of None \<Rightarrow> length (takeWhile ?sep a)
                 | Some h \<Rightarrow> min h (length (takeWhile ?sep a)))"
        unfolding tw3 by simp
      show "(0::nat) \<le> 0" by simp
      show "rxmatch [Rx isWhiteSpace 0 None False, Rx isDigit 1 None True] (drop 0 a) = Some [a]"
        using e4 by simp
    qed
    then show ?thesis by simp
  qed
  have e2: "rxmatch [Rx isWhiteSpace 0 None False, Rx ?sep 0 (Some 1) False,
                     Rx isWhiteSpace 0 None False, Rx isDigit 1 None True] (w @ a) = Some [a]"
  proof (rule rxmatch_ws_then[OF w(2)])
    show "a = [] \<or> \<not> isWhiteSpace (hd a)" using ew by (simp add: as)
    show "rxmatch [Rx ?sep 0 (Some 1) False, Rx isWhiteSpace 0 None False, Rx isDigit 1 None True] a
          = Some [a]" by (rule e3)
  qed
  have tw1: "takeWhile isDigit (d @ w @ a) = d"
    by (rule takeWhile_prefix[OF d(3)]) (use w0d in \<open>simp add: ws\<close>)
  have "rxmatch (Rx isDigit 1 (Some 2) True # [Rx isWhiteSpace 0 None False, Rx ?sep 0 (Some 1) False,
                  Rx isWhiteSpace 0 None False, Rx isDigit 1 None True]) (d @ w @ a)
        = Some (if True then take (length d) (d @ w @ a) # [a] else [a])"
  proof (rule rxmatch_greedy)
    show "length d = (case Some 2 of None \<Rightarrow> length (takeWhile isDigit (d @ w @ a))
                      | Some h \<Rightarrow> min h (length (takeWhile isDigit (d @ w @ a))))"
      unfolding tw1 using d(2) by simp
    show "1 \<le> length d" using d(1) by (simp add: Suc_le_eq)
    show "rxmatch [Rx isWhiteSpace 0 None False, Rx ?sep 0 (Some 1) False,
                   Rx isWhiteSpace 0 None False, Rx isDigit 1 None True]
            (drop (length d) (d @ w @ a)) = Some [a]"
      using e2 by simp
  qed
  then show ?thesis by (simp add: reDelimited_def)
qed

text \<open>What a match of the fourth pattern looks like.\<close>

lemma rxmatch_reSpaced_shape:
  assumes "rxmatch reSpaced s = Some gs"
  shows "\<exists>d w a. s = d @ w @ a \<and> gs = [d, a]
           \<and> d \<noteq> [] \<and> length d \<le> 2 \<and> list_all isDigit d
           \<and> w \<noteq> [] \<and> list_all isWhiteSpace w
           \<and> a \<noteq> [] \<and> list_all isDigit a"
proof -
  from rxmatch_ConsD[OF assms[unfolded reSpaced_def]]
  obtain k1 gs1 where k1: "1 \<le> k1" "k1 \<le> length (takeWhile isDigit s)" "k1 \<le> 2"
      and r1: "rxmatch [Rx isWhiteSpace 1 None False, Rx isDigit 1 None True] (drop k1 s) = Some gs1"
      and g: "gs = take k1 s # gs1"
    by auto
  from rxmatch_ConsD[OF r1]
  obtain k2 gs2 where k2: "1 \<le> k2" "k2 \<le> length (takeWhile isWhiteSpace (drop k1 s))"
      and r2: "rxmatch [Rx isDigit 1 None True] (drop k2 (drop k1 s)) = Some gs2"
      and g1: "gs1 = gs2"
    by auto
  from rxmatch_ConsD[OF r2]
  obtain k3 gs3 where k3: "1 \<le> k3" "k3 \<le> length (takeWhile isDigit (drop k2 (drop k1 s)))"
      and r3: "rxmatch [] (drop k3 (drop k2 (drop k1 s))) = Some gs3"
      and g2: "gs2 = take k3 (drop k2 (drop k1 s)) # gs3"
    by auto
  from r3 have e: "drop k3 (drop k2 (drop k1 s)) = []" "gs3 = []"
    by (auto simp: rxmatch.simps split: if_splits)
  define d where "d = take k1 s"
  define w where "w = take k2 (drop k1 s)"
  define a where "a = drop k2 (drop k1 s)"
  have a3: "take k3 a = a" using e(1) by (simp add: a_def)
  have "take k2 (drop k1 s) @ drop k2 (drop k1 s) = drop k1 s"
    by (rule append_take_drop_id)
  then have "take k1 s @ take k2 (drop k1 s) @ drop k2 (drop k1 s) = s"
    by (simp only: append_take_drop_id)
  then have s: "s = d @ w @ a"
    by (simp only: d_def w_def a_def)
  have "list_all isDigit d" "length d = k1"
    unfolding d_def using take_le_takeWhile[OF k1(2)] by simp_all
  moreover have "list_all isWhiteSpace w" "length w = k2"
    unfolding w_def using take_le_takeWhile[OF k2(2)] by simp_all
  moreover have "list_all isDigit a" "length a = k3"
    using take_le_takeWhile[OF k3(2)] a3 by (simp_all add: a_def)
  moreover have "gs = [d, a]"
    using g g1 g2 e(2) a3 by (simp add: d_def a_def)
  ultimately have "s = d @ w @ a \<and> gs = [d, a]
           \<and> d \<noteq> [] \<and> length d \<le> 2 \<and> list_all isDigit d
           \<and> w \<noteq> [] \<and> list_all isWhiteSpace w
           \<and> a \<noteq> [] \<and> list_all isDigit a"
    using s k1 k2 k3 by auto
  then show ?thesis by blast
qed

lemma reSpaced_shadowed:
  assumes "match s reSpaced = Some m"
  shows "match s reDelimited = Some m"
proof -
  from assms obtain gs where gs: "rxmatch reSpaced s = Some gs" and m: "m = s # gs"
    by (auto simp: match_def)
  from rxmatch_reSpaced_shape[OF gs] obtain d w a where
    s: "s = d @ w @ a" and g: "gs = [d, a]"
    and d: "d \<noteq> []" "length d \<le> 2" "list_all isDigit d"
    and w: "w \<noteq> []" "list_all isWhiteSpace w"
    and a: "a \<noteq> []" "list_all isDigit a"
    by blast
  have "rxmatch reDelimited s = Some gs"
    unfolding s g by (rule rxmatch_spaced[OF d a w])
  then show ?thesis by (simp add: match_def m)
qed

lemma collapseSpaces_spaced:
  assumes d: "d \<noteq> []" "list_all isDigit d"
    and a: "a \<noteq> []" "list_all isDigit a"
    and w: "w \<noteq> []" "list_all isWhiteSpace w"
  shows "collapseSpaces (d @ w @ a) = d @ [32] @ a"
proof -
  obtain a0 as where as: "a = a0 # as" using a(1) by (cases a) auto
  have dn: "\<forall>c\<in>set d. \<not> isWhiteSpace c" and an: "\<forall>c\<in>set a. \<not> isWhiteSpace c"
    using d(2) a(2) digit_not_ws by (auto simp: list_all_iff)
  have "collapseSpaces (d @ w @ a) = d @ collapseFrom False (w @ a0 # as)"
    unfolding collapseSpaces_def using collapseFrom_nonws[OF dn] d(1) by (simp add: as)
  also have "collapseFrom False (w @ a0 # as) = [32] @ a0 # collapseFrom False as"
    using collapseFrom_run[of w a0] w an by (simp add: list_all_iff as)
  also have "collapseFrom False as = as"
    using collapseFrom_nonws_all[of as] an by (simp add: as)
  finally show ?thesis by (simp add: as)
qed

lemma parsePart_spaced:
  assumes d: "length d = 1 \<or> length d = 2" "list_all isDigit d"
    and w: "w \<noteq> []" "list_all isWhiteSpace w"
    and a: "a \<noteq> []" "list_all isDigit a"
  shows "parsePart (d @ w @ a) = [\<lparr>number = pad2 d, amount = parseInt10 a\<rparr>]"
proof -
  have dne: "d \<noteq> []" and dle: "length d \<le> 2" using d(1) by auto
  have col: "collapseSpaces (d @ w @ a) = d @ [32] @ a"
    by (rule collapseSpaces_spaced[OF dne d(2) a w])
  have "rxmatch reDelimited (d @ [32] @ a) = Some [d, a]"
    by (rule rxmatch_spaced[OF dne dle d(2) a]) (simp_all add: isWhiteSpace_def)
  then have m: "match (d @ [32] @ a) reDelimited = Some [d @ [32] @ a, d, a]"
    by (simp add: match_def)
  show ?thesis
    unfolding parsePart_def col Let_def m by simp
qed

lemma parsePart_equals:
  assumes d: "length d = 1 \<or> length d = 2" "list_all isDigit d"
    and w: "list_all isWhiteSpace ws1" "list_all isWhiteSpace ws2"
    and a: "a \<noteq> []" "list_all isDigit a"
  shows "parsePart (d @ ws1 @ [61] @ ws2 @ a) = [\<lparr>number = pad2 d, amount = parseInt10 a\<rparr>]"
proof -
  define s1 where "s1 = (if ws1 = [] then [] else [32::nat])"
  define s2 where "s2 = (if ws2 = [] then [] else [32::nat])"
  define part where "part = d @ s1 @ [61] @ s2 @ a"
  have dne: "d \<noteq> []" using d(1) by auto
  have rw: "\<not> isWhiteSpace 61" and rd: "\<not> isDigit 61"
    by (auto simp: isWhiteSpace_def isDigit_def)
  have col: "collapseSpaces (d @ ws1 @ [61] @ ws2 @ a) = part"
    unfolding part_def s1_def s2_def
    by (rule collapseSpaces_pair[OF dne d(2) a w rw])
  have sw: "list_all isWhiteSpace s1" "list_all isWhiteSpace s2"
    by (simp_all add: s1_def s2_def isWhiteSpace_def)
  have mem: "61 \<in> set part" by (simp add: part_def)
  have m1: "match part reDelimited = None"
    by (rule match_None_of_char[OF mem]) (simp add: reDelimited_def rw rd)
  have m2: "match part reReverse = None"
    by (rule match_None_of_char[OF mem]) (simp add: reReverse_def rw rd)
  have "rxmatch reEquals part = Some [d, a]"
    unfolding reEquals_def part_def
  proof (rule rxmatch_separated)
    show "d \<noteq> []" by (rule dne)
    show "length d \<le> 2" using d(1) by auto
    show "list_all isDigit d" by (rule d(2))
    show "a \<noteq> []" by (rule a(1))
    show "list_all isDigit a" by (rule a(2))
    show "list_all isWhiteSpace s1" "list_all isWhiteSpace s2" by (rule sw)+
    show "(61::nat) = 61" by simp
    show "\<not> isWhiteSpace 61" by (rule rw)
    show "\<not> isDigit 61" by (rule rd)
    show "\<And>c. c = 61 \<Longrightarrow> \<not> isWhiteSpace c \<and> \<not> isDigit c"
      by (auto simp: isWhiteSpace_def isDigit_def)
    show "(1::nat) \<le> 1" by simp
  qed
  then have m3: "match part reEquals = Some [part, d, a]" by (simp add: match_def)
  show ?thesis
    unfolding parsePart_def col Let_def m1 m2 m3 by simp
qed

text \<open>A pair lifted from its part to a message that consists of it.\<close>

lemma parse_pair_part:
  assumes "length d = 1 \<or> length d = 2" "list_all isDigit d" "a \<noteq> []" "list_all isDigit a"
    and "\<forall>c\<in>set mid. c \<noteq> 10 \<and> c \<noteq> 44"
  shows "parseMessageToBets (d @ mid @ a) = parsePart (d @ mid @ a)"
proof (rule parse_single)
  obtain d0 ds where d: "d = d0 # ds" using assms(1) by (cases d) auto
  show "d @ mid @ a \<noteq> []" using assms(3) by simp
  show "\<not> isWhiteSpace (hd (d @ mid @ a))"
    using assms(2) digit_not_ws by (simp add: d)
  show "\<not> isWhiteSpace (last (d @ mid @ a))"
    using assms(3,4) digit_not_ws by (simp add: list_all_iff)
  show "\<forall>c\<in>set (d @ mid @ a). c \<noteq> 10 \<and> c \<noteq> 44"
    using assms(2,4,5) by (auto simp: list_all_iff isDigit_def)
qed

subsection \<open>No exception on a string\<close>

lemma pushPair_Some: "pushPair (Some m) = Inr [\<lparr>number = pad2 (m ! 1), amount = parseInt10 (m ! 2)\<rparr>]"
  by (simp add: pushPair_def groupAt_def bindE_def)

lemma pushReversed_Some:
  "pushReversed (Some m) = Inr [\<lparr>number = pad2 (m ! 1), amount = parseInt10 (m ! 2)\<rparr>,
                                \<lparr>number = reverse2 (pad2 (m ! 1)), amount = parseInt10 (m ! 2)\<rparr>]"
  by (simp add: pushReversed_def groupAt_def bindE_def Let_def)

lemma parsePartE_returns: "parsePartE p = Inr (parsePart p)"
  by (auto simp: parsePartE_def parsePart_def Let_def pushPair_Some pushReversed_Some
           split: option.splits)

lemma parseLoop_returns: "parseLoop bets parts = Inr (bets @ concat (map parsePart parts))"
  by (induction parts arbitrary: bets) (simp_all add: parsePartE_returns bindE_def)

lemma parseMessageToBetsE_string:
  "parseMessageToBetsE (JStr text) = Inr (parseMessageToBets text)"
  by (simp add: parseMessageToBetsE_def splitCall_def bindE_def parseLoop_returns
      parseMessageToBets_concat messageParts_def[symmetric] messageParts_Nil)

lemma non_string_argument_throws:
  "parseMessageToBetsE (JNum (Fin 5)) = Inl TypeError"
  "parseMessageToBetsE (JBool True) = Inl TypeError"
  "parseMessageToBetsE JNull = Inr []"
  by (simp_all add: parseMessageToBetsE_def splitCall_def bindE_def)

subsection \<open>The rules of the grammar and the four patterns\<close>

text \<open>Whitespace normalisation keeps the form of a segment.\<close>

lemma ws_space: "isWhiteSpace 32"
  by (simp add: isWhiteSpace_def)

lemma dropWhile_collapseFrom:
  "dropWhile isWhiteSpace (collapseFrom b r) = collapseFrom False (dropWhile isWhiteSpace r)"
  by (induction r arbitrary: b) (simp_all add: ws_space)

lemma collapseFrom_Nil_iff: "collapseFrom False r = [] \<longleftrightarrow> r = []"
  by (cases r) simp_all

lemma digits_collapseFrom: "list_all isDigit (collapseFrom False r) = list_all isDigit r"
proof (induction r)
  case Nil
  then show ?case by simp
next
  case (Cons c cs)
  show ?case
  proof (cases "isWhiteSpace c")
    case True
    then have "\<not> isDigit c" using digit_not_ws by blast
    moreover have "\<not> isDigit 32" by (simp add: isDigit_def)
    ultimately show ?thesis using True by simp
  next
    case False
    then show ?thesis using Cons.IH by simp
  qed
qed

lemma amountForm_Cons:
  assumes "dropWhile isWhiteSpace r = c # t"
  shows "amountForm delim optional r
         = ((delim c \<or> optional)
            \<and> dropWhile isWhiteSpace (if delim c then t else c # t) \<noteq> []
            \<and> list_all isDigit (dropWhile isWhiteSpace (if delim c then t else c # t)))"
  unfolding amountForm_def Let_def assms by (simp del: dropWhile_eq_Nil_conv)

lemma amountForm_Nil:
  assumes "dropWhile isWhiteSpace r = []"
  shows "\<not> amountForm delim optional r"
  unfolding amountForm_def Let_def assms by simp

lemma amountForm_collapse:
  "amountForm delim optional (collapseFrom False r) = amountForm delim optional r"
proof (cases "dropWhile isWhiteSpace r")
  case Nil
  then have "dropWhile isWhiteSpace (collapseFrom False r) = []"
    by (simp add: dropWhile_collapseFrom del: dropWhile_eq_Nil_conv)
  then show ?thesis using amountForm_Nil[OF Nil] amountForm_Nil by blast
next
  case (Cons c t)
  have cw: "\<not> isWhiteSpace c"
    using hd_dropWhile[of isWhiteSpace r] Cons by simp
  have c1: "dropWhile isWhiteSpace (collapseFrom False r) = c # collapseFrom False t"
    using cw by (simp add: dropWhile_collapseFrom Cons del: dropWhile_eq_Nil_conv)
  define r2 where "r2 = dropWhile isWhiteSpace (if delim c then t else c # t)"
  have r2': "dropWhile isWhiteSpace (if delim c then collapseFrom False t else c # collapseFrom False t)
             = collapseFrom False r2"
  proof (cases "delim c")
    case True
    then show ?thesis unfolding r2_def by (simp add: dropWhile_collapseFrom del: dropWhile_eq_Nil_conv)
  next
    case False
    have "c # collapseFrom False t = collapseFrom False (c # t)" using cw by simp
    then show ?thesis unfolding r2_def using False
      by (simp only: dropWhile_collapseFrom if_False)
  qed
  show ?thesis
    unfolding amountForm_Cons[OF Cons] amountForm_Cons[OF c1] r2' r2_def[symmetric]
    by (simp add: collapseFrom_Nil_iff digits_collapseFrom)
qed

lemma take_collapseFrom:
  assumes "k \<le> length (collapseFrom False p)" "list_all isDigit (take k (collapseFrom False p))"
  shows "k \<le> length p \<and> take k p = take k (collapseFrom False p)
         \<and> drop k (collapseFrom False p) = collapseFrom False (drop k p)"
  using assms
proof (induction p arbitrary: k)
  case Nil
  then show ?case by simp
next
  case (Cons c cs)
  show ?case
  proof (cases k)
    case 0
    then show ?thesis by simp
  next
    case (Suc j)
    have nd: "\<not> isDigit 32" by (simp add: isDigit_def)
    show ?thesis
    proof (cases "isWhiteSpace c")
      case True
      then show ?thesis using Cons.prems nd by (simp add: Suc)
    next
      case False
      then have "j \<le> length (collapseFrom False cs)" "list_all isDigit (take j (collapseFrom False cs))"
        using Cons.prems by (simp_all add: Suc)
      from Cons.IH[OF this] show ?thesis using False by (simp add: Suc)
    qed
  qed
qed

lemma pairAt_collapse:
  assumes "pairAt delim optional k (collapseSpaces p)"
  shows "pairAt delim optional k p"
proof -
  from assms have k: "k \<le> length (collapseFrom False p)"
      and d: "list_all isDigit (take k (collapseFrom False p))"
      and a: "amountForm delim optional (drop k (collapseFrom False p))"
    by (simp_all add: pairAt_def collapseSpaces_def)
  from take_collapseFrom[OF k d] a d show ?thesis
    by (simp add: pairAt_def amountForm_collapse)
qed

text \<open>What a match of a pattern with a delimiter item looks like.\<close>

lemma rxmatch_pair_shape:
  assumes "rxmatch [Rx isDigit 1 (Some 2) True, Rx isWhiteSpace 0 None False,
                    Rx sep lo (Some 1) False, Rx isWhiteSpace 0 None False,
                    Rx isDigit 1 None True] s = Some gs"
  shows "\<exists>d w1 c w2 a. s = d @ w1 @ c @ w2 @ a \<and> gs = [d, a]
           \<and> (length d = 1 \<or> length d = 2) \<and> list_all isDigit d
           \<and> list_all isWhiteSpace w1
           \<and> lo \<le> length c \<and> length c \<le> 1 \<and> list_all sep c
           \<and> list_all isWhiteSpace w2
           \<and> a \<noteq> [] \<and> list_all isDigit a"
proof -
  from rxmatch_ConsD[OF assms]
  obtain k1 gs1 where k1: "1 \<le> k1" "k1 \<le> length (takeWhile isDigit s)" "k1 \<le> 2"
      and r1: "rxmatch [Rx isWhiteSpace 0 None False, Rx sep lo (Some 1) False,
                        Rx isWhiteSpace 0 None False, Rx isDigit 1 None True] (drop k1 s) = Some gs1"
      and g: "gs = take k1 s # gs1"
    by auto
  define s1 where "s1 = drop k1 s"
  from rxmatch_ConsD[OF r1[folded s1_def]]
  obtain k2 where k2: "k2 \<le> length (takeWhile isWhiteSpace s1)"
      and r2: "rxmatch [Rx sep lo (Some 1) False, Rx isWhiteSpace 0 None False,
                        Rx isDigit 1 None True] (drop k2 s1) = Some gs1"
    by auto
  define s2 where "s2 = drop k2 s1"
  from rxmatch_ConsD[OF r2[folded s2_def]]
  obtain k3 where k3: "lo \<le> k3" "k3 \<le> length (takeWhile sep s2)" "k3 \<le> 1"
      and r3: "rxmatch [Rx isWhiteSpace 0 None False, Rx isDigit 1 None True] (drop k3 s2) = Some gs1"
    by auto
  define s3 where "s3 = drop k3 s2"
  from rxmatch_ConsD[OF r3[folded s3_def]]
  obtain k4 where k4: "k4 \<le> length (takeWhile isWhiteSpace s3)"
      and r4: "rxmatch [Rx isDigit 1 None True] (drop k4 s3) = Some gs1"
    by auto
  define s4 where "s4 = drop k4 s3"
  from rxmatch_ConsD[OF r4[folded s4_def]]
  obtain k5 gs5 where k5: "1 \<le> k5" "k5 \<le> length (takeWhile isDigit s4)"
      and r5: "rxmatch [] (drop k5 s4) = Some gs5"
      and g4: "gs1 = take k5 s4 # gs5"
    by auto
  from r5 have e: "drop k5 s4 = []" "gs5 = []"
    by (auto simp: rxmatch.simps split: if_splits)
  have a5: "take k5 s4 = s4" using e(1) by simp
  have "s = take k1 s @ s1" by (simp add: s1_def)
  also have "s1 = take k2 s1 @ s2" by (simp add: s2_def)
  also have "s2 = take k3 s2 @ s3" by (simp add: s3_def)
  also have "s3 = take k4 s3 @ s4" by (simp add: s4_def)
  finally have s: "s = take k1 s @ take k2 s1 @ take k3 s2 @ take k4 s3 @ s4" .
  have d: "list_all isDigit (take k1 s)" "length (take k1 s) = k1"
    using take_le_takeWhile[OF k1(2)] by simp_all
  have w1: "list_all isWhiteSpace (take k2 s1)"
    using take_le_takeWhile[OF k2] by simp
  have c: "list_all sep (take k3 s2)" "length (take k3 s2) = k3"
    using take_le_takeWhile[OF k3(2)] by simp_all
  have w2: "list_all isWhiteSpace (take k4 s3)"
    using take_le_takeWhile[OF k4] by simp
  have a: "list_all isDigit s4" "length s4 = k5"
    using take_le_takeWhile[OF k5(2)] a5 by simp_all
  have gs: "gs = [take k1 s, s4]" using g g4 e(2) a5 by simp
  have "s = take k1 s @ take k2 s1 @ take k3 s2 @ take k4 s3 @ s4 \<and> gs = [take k1 s, s4]
           \<and> (length (take k1 s) = 1 \<or> length (take k1 s) = 2) \<and> list_all isDigit (take k1 s)
           \<and> list_all isWhiteSpace (take k2 s1)
           \<and> lo \<le> length (take k3 s2) \<and> length (take k3 s2) \<le> 1 \<and> list_all sep (take k3 s2)
           \<and> list_all isWhiteSpace (take k4 s3)
           \<and> s4 \<noteq> [] \<and> list_all isDigit s4"
    using s gs d w1 c w2 a k1 k3 k5 by (intro conjI) (simp_all, linarith, force)
  then show ?thesis by blast
qed

lemma dropWhile_ws_prefix:
  assumes "list_all isWhiteSpace w" "\<not> isWhiteSpace x"
  shows "dropWhile isWhiteSpace (w @ x # t) = x # t"
  using assms by (induction w) simp_all

lemma pairAt_of_shape:
  assumes d: "list_all isDigit d"
    and w: "list_all isWhiteSpace w1" "list_all isWhiteSpace w2"
    and c: "c = [] \<and> optional \<or> (\<exists>x. c = [x] \<and> delim x)"
    and a: "a \<noteq> []" "list_all isDigit a"
    and disj: "\<And>x. delim x \<Longrightarrow> \<not> isWhiteSpace x \<and> \<not> isDigit x"
  shows "pairAt delim optional (length d) (d @ w1 @ c @ w2 @ a)"
proof -
  obtain a0 as where as: "a = a0 # as" using a(1) by (cases a) auto
  have a0: "isDigit a0" "\<not> isWhiteSpace a0" "\<not> delim a0"
    using a(2) digit_not_ws disj by (auto simp: as)
  have da: "dropWhile isWhiteSpace a = a" using a0(2) by (simp add: as)
  have "amountForm delim optional (w1 @ c @ w2 @ a)"
  proof (cases "c = []")
    case True
    then have opt: optional using c by auto
    have "w1 @ c @ w2 @ a = (w1 @ w2) @ a0 # as" by (simp add: True as)
    moreover have "list_all isWhiteSpace (w1 @ w2)" using w by simp
    ultimately have dw: "dropWhile isWhiteSpace (w1 @ c @ w2 @ a) = a0 # as"
      using dropWhile_ws_prefix[of "w1 @ w2" a0 as] a0(2) by simp
    show ?thesis
      unfolding amountForm_Cons[OF dw] using a0 opt a(2) by (simp add: as)
  next
    case False
    then obtain x where x: "c = [x]" "delim x" using c by auto
    have xw: "\<not> isWhiteSpace x" using disj[OF x(2)] by simp
    have dw: "dropWhile isWhiteSpace (w1 @ c @ w2 @ a) = x # (w2 @ a)"
      using dropWhile_ws_prefix[OF w(1) xw, of "w2 @ a"] by (simp add: x)
    have dw2: "dropWhile isWhiteSpace (w2 @ a) = a"
      using dropWhile_ws_prefix[OF w(2) a0(2), of as] by (simp add: as)
    show ?thesis
      unfolding amountForm_Cons[OF dw] using x(2) a by (simp add: dw2 del: dropWhile_eq_Nil_conv)
  qed
  then show ?thesis using d by (simp add: pairAt_def)
qed

text \<open>A segment of the form of a rule, taken apart.\<close>

lemma shape_of_pairAt:
  assumes "pairAt delim optional k p"
  shows "\<exists>d w1 c w2 a. p = d @ w1 @ c @ w2 @ a \<and> length d = k \<and> list_all isDigit d
           \<and> list_all isWhiteSpace w1 \<and> list_all isWhiteSpace w2
           \<and> (c = [] \<and> optional \<and> w2 = [] \<or> (\<exists>x. c = [x] \<and> delim x))
           \<and> a \<noteq> [] \<and> list_all isDigit a"
proof -
  define r where "r = drop k p"
  from assms have k: "k \<le> length p" and d: "list_all isDigit (take k p)"
      and af: "amountForm delim optional r"
    by (simp_all add: pairAt_def r_def)
  have p: "p = take k p @ r" by (simp add: r_def)
  have lw: "list_all isWhiteSpace (takeWhile isWhiteSpace xs)" for xs
    by (simp add: list_all_iff) (meson set_takeWhileD)
  show ?thesis
  proof (cases "dropWhile isWhiteSpace r")
    case Nil
    then show ?thesis using af amountForm_Nil by blast
  next
    case (Cons c0 t)
    have r: "r = takeWhile isWhiteSpace r @ c0 # t"
      using takeWhile_dropWhile_id[of isWhiteSpace r] Cons by simp
    have c0w: "\<not> isWhiteSpace c0"
      using hd_dropWhile[of isWhiteSpace r] Cons by simp
    from af have f: "delim c0 \<or> optional"
        "dropWhile isWhiteSpace (if delim c0 then t else c0 # t) \<noteq> []"
        "list_all isDigit (dropWhile isWhiteSpace (if delim c0 then t else c0 # t))"
      unfolding amountForm_Cons[OF Cons] by blast+
    show ?thesis
    proof (cases "delim c0")
      case True
      have t: "t = takeWhile isWhiteSpace t @ dropWhile isWhiteSpace t" by simp
      have "p = take k p @ takeWhile isWhiteSpace r @ [c0] @ takeWhile isWhiteSpace t
                @ dropWhile isWhiteSpace t"
        using p r t by (metis append_Cons append_Nil)
      moreover have "dropWhile isWhiteSpace t \<noteq> []" "list_all isDigit (dropWhile isWhiteSpace t)"
        using f(2,3) True by simp_all
      ultimately show ?thesis
        using k d lw True by (intro exI[of _ "take k p"] exI[of _ "takeWhile isWhiteSpace r"]
            exI[of _ "[c0]"] exI[of _ "takeWhile isWhiteSpace t"]
            exI[of _ "dropWhile isWhiteSpace t"]) simp
    next
      case False
      then have opt: optional using f(1) by simp
      have dd: "dropWhile isWhiteSpace (c0 # t) = c0 # t" using c0w by simp
      have "p = take k p @ takeWhile isWhiteSpace r @ [] @ [] @ (c0 # t)"
        using p r by (metis append_Nil)
      moreover have "list_all isDigit (c0 # t)" using f(3) False dd by simp
      ultimately show ?thesis
        using k d lw opt by (intro exI[of _ "take k p"] exI[of _ "takeWhile isWhiteSpace r"]
            exI[of _ "[]"] exI[of _ "[]"] exI[of _ "c0 # t"]) simp
    qed
  qed
qed

text \<open>
  Two digits alone: the number group first takes both, the amount finds nothing, and the
  number gives one digit back.
\<close>

lemma rxmatch_two_digits:
  assumes "isDigit d1" "isDigit d2"
  shows "rxmatch reDelimited [d1, d2] = Some [[d1], [d2]]"
proof -
  let ?sep = "\<lambda>c. c = 45 \<or> c = 95 \<or> c = 100 \<or> c = 68"
  let ?tail = "[Rx isWhiteSpace 0 None False, Rx ?sep 0 (Some 1) False,
                Rx isWhiteSpace 0 None False, Rx isDigit 1 None True]"
  have nw: "\<not> isWhiteSpace d2" using assms(2) by (rule digit_not_ws)
  have ns: "\<not> ?sep d2" using assms(2) by (auto simp: isDigit_def)
  have none: "rxmatch ?tail [] = None"
    by (simp add: rxmatch.simps)
  have one: "rxmatch ?tail [d2] = Some [[d2]]"
    using nw ns assms(2) by (simp add: rxmatch.simps)
  have u: "rev [1..<Suc 2] = [2, 1::nat]"
    by (simp add: upt_rec)
  show ?thesis
    unfolding reDelimited_def rxmatch.simps(2)[of isDigit 1 "Some 2" True ?tail "[d1, d2]"]
    using assms none one by (simp add: u)
qed


lemma rxmatch_found:
  assumes d: "length d = 1 \<or> length d = 2" "list_all isDigit d"
    and w: "list_all isWhiteSpace w1" "list_all isWhiteSpace w2"
    and x: "sep x"
    and a: "a \<noteq> []" "list_all isDigit a"
    and disj: "\<And>c. sep c \<Longrightarrow> \<not> isWhiteSpace c \<and> \<not> isDigit c"
    and lo: "lo \<le> 1"
  shows "rxmatch [Rx isDigit 1 (Some 2) True, Rx isWhiteSpace 0 None False,
                  Rx sep lo (Some 1) False, Rx isWhiteSpace 0 None False,
                  Rx isDigit 1 None True] (collapseSpaces (d @ w1 @ [x] @ w2 @ a)) = Some [d, a]"
proof -
  define s1 where "s1 = (if w1 = [] then [] else [32::nat])"
  define s2 where "s2 = (if w2 = [] then [] else [32::nat])"
  have dne: "d \<noteq> []" using d(1) by auto
  have xw: "\<not> isWhiteSpace x" and xd: "\<not> isDigit x" using disj[OF x] by simp_all
  have col: "collapseSpaces (d @ w1 @ [x] @ w2 @ a) = d @ s1 @ [x] @ s2 @ a"
    unfolding s1_def s2_def by (rule collapseSpaces_pair[OF dne d(2) a w xw])
  have sw: "list_all isWhiteSpace s1" "list_all isWhiteSpace s2"
    by (simp_all add: s1_def s2_def isWhiteSpace_def)
  show ?thesis
    unfolding col
  proof (rule rxmatch_separated)
    show "d \<noteq> []" by (rule dne)
    show "length d \<le> 2" using d(1) by auto
    show "list_all isDigit d" by (rule d(2))
    show "a \<noteq> []" by (rule a(1))
    show "list_all isDigit a" by (rule a(2))
    show "list_all isWhiteSpace s1" "list_all isWhiteSpace s2" by (rule sw)+
    show "sep x" by (rule x)
    show "\<not> isWhiteSpace x" by (rule xw)
    show "\<not> isDigit x" by (rule xd)
    show "\<And>c. sep c \<Longrightarrow> \<not> isWhiteSpace c \<and> \<not> isDigit c" by (rule disj)
    show "lo \<le> 1" by (rule lo)
  qed
qed

lemma rxmatch_no_delimiter:
  assumes d: "length d = 1 \<or> length d = 2" "list_all isDigit d"
    and w: "list_all isWhiteSpace w"
    and a: "a \<noteq> []" "list_all isDigit a"
  shows "rxmatch reDelimited (collapseSpaces (d @ w @ a)) \<noteq> None"
proof (cases "w = []")
  case True
  obtain a0 as where as: "a = a0 # as" using a(1) by (cases a) auto
  have "\<forall>c\<in>set (d @ a). \<not> isWhiteSpace c"
    using d(2) a(2) digit_not_ws by (auto simp: list_all_iff)
  then have col: "collapseSpaces (d @ w @ a) = d @ a"
    unfolding collapseSpaces_def True by (simp add: collapseFrom_nonws_all)
  have "rxmatch reDelimited (d @ a) \<noteq> None"
    using d(1)
  proof
    assume "length d = 1"
    then obtain d1 where d1: "d = [d1]" by (cases d) auto
    show ?thesis
    proof (cases "as = []")
      case True
      then show ?thesis
        using rxmatch_two_digits[of d1 a0] d(2) a(2) by (simp add: d1 as)
    next
      case False
      then show ?thesis
        using rxmatch_concatenated[of d1 a0 as] d(2) a(2) by (simp add: d1 as)
    qed
  next
    assume "length d = 2"
    then obtain d1 d2 where d12: "d = [d1, d2]"
      by (cases d) (auto simp: length_Suc_conv)
    show ?thesis
      using rxmatch_concatenated[of d1 d2 a] d(2) a by (simp add: d12)
  qed
  then show ?thesis unfolding col .
next
  case False
  have dne: "d \<noteq> []" and dle: "length d \<le> 2" using d(1) by auto
  have col: "collapseSpaces (d @ w @ a) = d @ [32] @ a"
    by (rule collapseSpaces_spaced[OF dne d(2) a False w])
  have "rxmatch reDelimited (d @ [32] @ a) = Some [d, a]"
    by (rule rxmatch_spaced[OF dne dle d(2) a]) (simp_all add: isWhiteSpace_def)
  then show ?thesis by (simp add: col)
qed

lemma match_pairForm:
  assumes m: "rxmatch [Rx isDigit 1 (Some 2) True, Rx isWhiteSpace 0 None False,
                       Rx sep lo (Some 1) False, Rx isWhiteSpace 0 None False,
                       Rx isDigit 1 None True] (collapseSpaces p) = Some gs"
    and disj: "\<And>x. sep x \<Longrightarrow> \<not> isWhiteSpace x \<and> \<not> isDigit x"
    and opt: "lo = 0 \<Longrightarrow> optional"
  shows "pairForm sep optional p"
proof -
  from rxmatch_pair_shape[OF m] obtain d w1 c w2 a where
    q: "collapseSpaces p = d @ w1 @ c @ w2 @ a"
    and d: "length d = 1 \<or> length d = 2" "list_all isDigit d"
    and w: "list_all isWhiteSpace w1" "list_all isWhiteSpace w2"
    and c: "lo \<le> length c" "length c \<le> 1" "list_all sep c"
    and a: "a \<noteq> []" "list_all isDigit a"
    by blast
  have c': "c = [] \<and> optional \<or> (\<exists>x. c = [x] \<and> sep x)"
  proof (cases c)
    case Nil
    then show ?thesis using c(1) opt by simp
  next
    case (Cons x xs)
    then show ?thesis using c(2,3) by simp
  qed
  have "pairAt sep optional (length d) (collapseSpaces p)"
    unfolding q by (rule pairAt_of_shape[OF d(2) w c' a disj])
  then have "pairAt sep optional (length d) p" by (rule pairAt_collapse)
  then show ?thesis using d(1) by (auto simp: pairForm_def)
qed

lemma pairForm_found_match:
  assumes f: "pairForm sep False p"
    and disj: "\<And>x. sep x \<Longrightarrow> \<not> isWhiteSpace x \<and> \<not> isDigit x"
    and lo: "lo \<le> 1"
  shows "rxmatch [Rx isDigit 1 (Some 2) True, Rx isWhiteSpace 0 None False,
                  Rx sep lo (Some 1) False, Rx isWhiteSpace 0 None False,
                  Rx isDigit 1 None True] (collapseSpaces p) \<noteq> None"
proof -
  from f obtain k where k: "k = 1 \<or> k = 2" and pa: "pairAt sep False k p"
    by (auto simp: pairForm_def)
  from shape_of_pairAt[OF pa] obtain d w1 x w2 a where
    p: "p = d @ w1 @ [x] @ w2 @ a" and ld: "length d = k" and d: "list_all isDigit d"
    and w: "list_all isWhiteSpace w1" "list_all isWhiteSpace w2"
    and x: "sep x" and a: "a \<noteq> []" "list_all isDigit a"
    by auto
  have dl: "length d = 1 \<or> length d = 2" using k ld by simp
  show ?thesis
    unfolding p
    using rxmatch_found[where sep = sep and lo = lo, OF dl d w x a disj lo] by simp
qed

text \<open>Each pattern matches the normalised part exactly when its rule matches the part.\<close>

lemma delimited_match_iff:
  "match (collapseSpaces p) reDelimited \<noteq> None \<longleftrightarrow> delimitedRule p"
proof
  assume "match (collapseSpaces p) reDelimited \<noteq> None"
  then obtain gs where "rxmatch reDelimited (collapseSpaces p) = Some gs"
    by (auto simp: match_def)
  then show "delimitedRule p"
    unfolding delimitedRule_def reDelimited_def
    by (rule match_pairForm) (auto simp: isWhiteSpace_def isDigit_def)
next
  let ?sep = "\<lambda>c. c = 45 \<or> c = 95 \<or> c = 100 \<or> c = (68::nat)"
  assume "delimitedRule p"
  then obtain k where k: "k = 1 \<or> k = 2" and pa: "pairAt ?sep True k p"
    by (auto simp: delimitedRule_def pairForm_def)
  from shape_of_pairAt[OF pa] obtain d w1 c w2 a where
    p: "p = d @ w1 @ c @ w2 @ a" and ld: "length d = k" and d: "list_all isDigit d"
    and w: "list_all isWhiteSpace w1" "list_all isWhiteSpace w2"
    and c: "c = [] \<and> True \<and> w2 = [] \<or> (\<exists>x. c = [x] \<and> ?sep x)"
    and a: "a \<noteq> []" "list_all isDigit a"
    by blast
  have dl: "length d = 1 \<or> length d = 2" using k ld by simp
  have disj: "\<And>x. ?sep x \<Longrightarrow> \<not> isWhiteSpace x \<and> \<not> isDigit x"
    by (auto simp: isWhiteSpace_def isDigit_def)
  from c have "rxmatch reDelimited (collapseSpaces p) \<noteq> None"
  proof
    assume "c = [] \<and> True \<and> w2 = []"
    then have "p = d @ w1 @ a" using p by simp
    then show ?thesis using rxmatch_no_delimiter[OF dl d w(1) a] by simp
  next
    assume "\<exists>x. c = [x] \<and> ?sep x"
    then obtain x where x: "c = [x]" "?sep x" by blast
    have "rxmatch [Rx isDigit 1 (Some 2) True, Rx isWhiteSpace 0 None False,
                  Rx ?sep 0 (Some 1) False, Rx isWhiteSpace 0 None False,
                  Rx isDigit 1 None True] (collapseSpaces (d @ w1 @ [x] @ w2 @ a)) = Some [d, a]"
    proof (rule rxmatch_found[where sep = ?sep, OF dl d w x(2) a disj])
      show "(0::nat) \<le> 1" by simp
    qed
    then show ?thesis by (simp add: p x(1) reDelimited_def)
  qed
  then show "match (collapseSpaces p) reDelimited \<noteq> None"
    by (simp add: match_def)
qed

lemma reverse_match_iff:
  "match (collapseSpaces p) reReverse \<noteq> None \<longleftrightarrow> reverseRule p"
proof
  assume "match (collapseSpaces p) reReverse \<noteq> None"
  then obtain gs where "rxmatch reReverse (collapseSpaces p) = Some gs"
    by (auto simp: match_def)
  then show "reverseRule p"
    unfolding reverseRule_def reReverse_def
    by (rule match_pairForm) (auto simp: isWhiteSpace_def isDigit_def)
next
  assume "reverseRule p"
  then have "rxmatch reReverse (collapseSpaces p) \<noteq> None"
    unfolding reverseRule_def reReverse_def
    by (rule pairForm_found_match) (auto simp: isWhiteSpace_def isDigit_def)
  then show "match (collapseSpaces p) reReverse \<noteq> None"
    by (simp add: match_def)
qed

lemma equals_match_iff:
  "match (collapseSpaces p) reEquals \<noteq> None \<longleftrightarrow> equalsRule p"
proof
  assume "match (collapseSpaces p) reEquals \<noteq> None"
  then obtain gs where "rxmatch reEquals (collapseSpaces p) = Some gs"
    by (auto simp: match_def)
  then show "equalsRule p"
    unfolding equalsRule_def reEquals_def
    by (rule match_pairForm) (auto simp: isWhiteSpace_def isDigit_def)
next
  assume "equalsRule p"
  then have "rxmatch reEquals (collapseSpaces p) \<noteq> None"
    unfolding equalsRule_def reEquals_def
    by (rule pairForm_found_match) (auto simp: isWhiteSpace_def isDigit_def)
  then show "match (collapseSpaces p) reEquals \<noteq> None"
    by (simp add: match_def)
qed

lemma spacedRule_delimited:
  assumes "spacedRule p"
  shows "delimitedRule p"
proof -
  let ?sep = "\<lambda>c. c = 45 \<or> c = 95 \<or> c = 100 \<or> c = (68::nat)"
  from assms obtain k where k: "k = 1 \<or> k = 2" and s: "spacedAt k p"
    by (auto simp: spacedRule_def)
  from s have kl: "k < length p" and d: "list_all isDigit (take k p)"
      and ne: "dropWhile isWhiteSpace (drop k p) \<noteq> []"
      and a: "list_all isDigit (dropWhile isWhiteSpace (drop k p))"
    by (simp_all add: spacedAt_def)
  from ne obtain a0 as where as: "dropWhile isWhiteSpace (drop k p) = a0 # as"
    by (cases "dropWhile isWhiteSpace (drop k p)") auto
  have a0: "isDigit a0" "list_all isDigit as" using a by (simp_all add: as)
  have ns: "\<not> ?sep a0" using a0(1) by (auto simp: isDigit_def)
  have nw: "\<not> isWhiteSpace a0" using a0(1) by (rule digit_not_ws)
  have "amountForm ?sep True (drop k p)"
    unfolding amountForm_Cons[OF as] using ns nw a0 by simp
  then have "pairAt ?sep True k p" using kl d by (simp add: pairAt_def)
  then show ?thesis using k by (auto simp: delimitedRule_def pairForm_def)
qed

lemma spaced_match_delimited:
  "match (collapseSpaces p) reSpaced \<noteq> None \<Longrightarrow> delimitedRule p"
  using reSpaced_shadowed[of "collapseSpaces p"] delimited_match_iff[of p] by auto

lemma unrecognized_iff: "unrecognized p \<longleftrightarrow> \<not> grammarSegment p"
  using delimited_match_iff[of p] reverse_match_iff[of p] equals_match_iff[of p]
    spaced_match_delimited[of p] spacedRule_delimited[of p]
  unfolding unrecognized_def Let_def grammarSegment_def by blast

lemma parsePartE_Nil_iff: "parsePartE p = Inr [] \<longleftrightarrow> \<not> grammarSegment p"
  by (simp add: parsePartE_returns parsePart_Nil_iff unrecognized_iff)

lemma concat_map_filter:
  assumes "\<And>x. x \<in> set xs \<Longrightarrow> \<not> P x \<Longrightarrow> f x = []"
  shows "concat (map f xs) = concat (map f (filter P xs))"
  using assms by (induction xs) auto

lemma parse_recognized_parts:
  "parseMessageToBets text = concat (map parsePart (filter grammarSegment (messageParts text)))"
  unfolding parseMessageToBets_concat
  by (rule concat_map_filter) (simp add: parsePart_Nil_iff unrecognized_iff)

lemmas evalGrammar = grammarSegment_def delimitedRule_def reverseRule_def equalsRule_def
  spacedRule_def spacedAt_def pairForm_def pairAt_def amountForm_def Let_def

section \<open>The claims\<close>

lemmas evalNaN = StringToNumber_def trim_def isWhiteSpace_def unsignedDecimal_def isDigit_def

text \<open>
  C1. In total mode a non-empty record set is reported under the heading with exactly one
  line per distinct number, the numbers in strictly ascending lexicographic order, each
  line \<open>"<number> - <summed amount>"\<close>, where the summed amount is the sum of the group
  taken in input order; for integer stakes in the exact range it is their arithmetic sum.
  The numbers are assumed to name no member of \<open>Object.prototype\<close>, as every two-digit
  number does.
\<close>

theorem total_mode_report:
  assumes "rows \<noteq> []" and "\<forall>r\<in>set rows. protoFree (number r)"
  shows "replyAggregates rows False
           = totalHeading
             @ join [10] (map (\<lambda>n. n @ js '' - '' @ NumberToString (groupTotal n rows))
                              (sort (remdups (map number rows))))
         \<and> sorted_wrt (<) (sort (remdups (map number rows)))
         \<and> set (sort (remdups (map number rows))) = number ` set rows
         \<and> (integerStakes rows \<and> totalMagnitude rows \<le> 2 ^ 53 \<longrightarrow>
              (\<forall>n. groupTotal n rows
                    = Fin (of_int (sum_list (map (\<lambda>r. stakeOf (amount r))
                                                 (filter (\<lambda>r. number r = n) rows))))))"
proof (intro conjI impI allI)
  show "replyAggregates rows False
        = totalHeading
          @ join [10] (map (\<lambda>n. n @ js '' - '' @ NumberToString (groupTotal n rows))
                           (sort (remdups (map number rows))))"
    using assms(1) by (simp add: replyAggregates_def totalLines_sorted)
  show "sorted_wrt (<) (sort (remdups (map number rows)))"
    by (simp add: strict_sorted_iff)
  show "set (sort (remdups (map number rows))) = number ` set rows"
    by simp
  fix n assume "integerStakes rows \<and> totalMagnitude rows \<le> 2 ^ 53"
  then show "groupTotal n rows
        = Fin (of_int (sum_list (map (\<lambda>r. stakeOf (amount r)) (filter (\<lambda>r. number r = n) rows))))"
    using groupTotal_exact by blast
qed

text \<open>
  C1 at three rows with two distinct numbers, given out of order.
\<close>

theorem total_mode_report_witness:
  "replyAggregates [mkRow ''22'' (JNum (Fin 5)) ''bob'', mkRow ''05'' (JNum (Fin 7)) ''amy'',
                    mkRow ''22'' (JNum (Fin 500)) ''amy''] False
   = totalHeading @ js ''05 - 7\<newline>22 - 505''"
  using total_mode_report[of "[mkRow ''22'' (JNum (Fin 5)) ''bob'', mkRow ''05'' (JNum (Fin 7)) ''amy'',
                    mkRow ''22'' (JNum (Fin 500)) ''amy'']"]
  by (simp add: mkRow_def groupTotal_def js_def digitsOf.simps protoFree_def objectPrototypeKeys_def)

text \<open>
  C2. A stored amount that does not coerce to a number, here the string \<open>"abc"\<close>: total
  mode counts it as zero, per-sender mode adds NaN and reports \<open>NaN\<close> for the sender. Both
  modes still produce a report.
\<close>

theorem non_numeric_amount_poisons_sender_sum:
  "Number (JStr (js ''abc'')) = NaN
   \<and> replyAggregates [mkRow ''22'' (JStr (js ''abc'')) ''a''] False = totalHeading @ js ''22 - 0''
   \<and> replyAggregates [mkRow ''22'' (JStr (js ''abc'')) ''a''] True
       = perUserHeading @ js ''22 -> a: NaN''"
proof (intro conjI)
  show n: "Number (JStr (js ''abc'')) = NaN"
    by (simp add: evalNaN js_def)
  show "replyAggregates [mkRow ''22'' (JStr (js ''abc'')) ''a''] False = totalHeading @ js ''22 - 0''"
    using n
    by (simp add: replyAggregates_def totalLines_sorted mkRow_def groupTotal_def orZero_def js_def)
  show "replyAggregates [mkRow ''22'' (JStr (js ''abc'')) ''a''] True
        = perUserHeading @ js ''22 -> a: NaN''"
    using n
    by (simp add: replyAggregates_def perUserLines_sorted senderLine_def mkRow_def sendersOf_def
        senderTotal_def propertyOrder_def isArrayIndex_def isDigit_def orZeroVal_def js_def)
qed

text \<open>
  C3 as stated fails: a stake of \<open>2 ^ 53\<close> from one sender followed by two stakes of 1 from
  another. Total mode adds \<open>2 ^ 53 + 1 + 1\<close> one at a time and stays at \<open>2 ^ 53\<close>; the
  per-sender sums are \<open>2 ^ 53\<close> and 2, which add up to \<open>2 ^ 53 + 2\<close>.
\<close>

theorem sender_sums_differ_from_total:
  "\<not> modesAgree [mkRow ''22'' (JNum (Fin 9007199254740992)) ''a'',
                   mkRow ''22'' (JNum (Fin 1)) ''b'', mkRow ''22'' (JNum (Fin 1)) ''b''] (js ''22'')"
proof -
  let ?rows = "[mkRow ''22'' (JNum (Fin 9007199254740992)) ''a'',
                mkRow ''22'' (JNum (Fin 1)) ''b'', mkRow ''22'' (JNum (Fin 1)) ''b'']"
  have n: "js ''22'' \<in> number ` set ?rows" by (simp add: mkRow_def)
  have tot: "getProp (totalAgg ?rows) (js ''22'') = Some (Fin 9007199254740992)"
    unfolding getProp_totalAgg using n
    by (simp add: groupTotal_def mkRow_def rnd_2p53_plus1)
  have inner: "getProp (perUserAgg ?rows) (js ''22'')
               = Some [(js ''a'', Fin 9007199254740992), (js ''b'', Fin 2)]"
    unfolding getProp_perUserAgg inner_object using n
    by (simp add: sendersOf_def senderTotal_def mkRow_def orZeroVal_def js_def)
  have "sumOverSenders [(js ''a'', Fin 9007199254740992), (js ''b'', Fin 2)] = Fin 9007199254740994"
    by (simp add: sumOverSenders_def ObjectEntries_def isArrayIndex_def isDigit_def js_def
        rnd_2p53_plus2)
  then show ?thesis
    by (simp add: modesAgree_def tot inner)
qed

text \<open>
  C3, amended. When every amount coerces to an integer and the absolute values of all
  stakes add up to at most \<open>2 ^ 53\<close>, the total-mode sum of every number present equals
  the sum over its senders of the per-sender sums, and both are the arithmetic sum of
  the number's stakes. Numbers and senders are assumed to name no member of
  \<open>Object.prototype\<close>.
\<close>

theorem sender_sums_equal_total:
  assumes "n \<in> number ` set rows"
    and "integerStakes rows" and "totalMagnitude rows \<le> 2 ^ 53"
    and "\<forall>r\<in>set rows. protoFree (number r) \<and> protoFree (sender r)"
  shows "modesAgree rows n
         \<and> getProp (totalAgg rows) n
           = Some (Fin (of_int (sum_list (map (\<lambda>r. stakeOf (amount r))
                                              (filter (\<lambda>r. number r = n) rows)))))"
  using assms modesAgree_exact[of n rows] groupTotal_exact[of rows n]
  by (simp add: getProp_totalAgg)

text \<open>
  C3, amended, at four rows: the three stakes on 22 add up to 13 in both modes.
\<close>

theorem sender_sums_equal_total_witness:
  "modesAgree [mkRow ''22'' (JNum (Fin 5)) ''bob'', mkRow ''22'' (JNum (Fin 7)) ''amy'',
               mkRow ''05'' (JNum (Fin 3)) ''bob'', mkRow ''22'' (JNum (Fin 1)) ''bob''] (js ''22'')
   \<and> getProp (totalAgg [mkRow ''22'' (JNum (Fin 5)) ''bob'', mkRow ''22'' (JNum (Fin 7)) ''amy'',
               mkRow ''05'' (JNum (Fin 3)) ''bob'', mkRow ''22'' (JNum (Fin 1)) ''bob'']) (js ''22'')
     = Some (Fin 13)"
  using sender_sums_equal_total[of "js ''22''"
      "[mkRow ''22'' (JNum (Fin 5)) ''bob'', mkRow ''22'' (JNum (Fin 7)) ''amy'',
        mkRow ''05'' (JNum (Fin 3)) ''bob'', mkRow ''22'' (JNum (Fin 1)) ''bob'']"]
  by (simp add: mkRow_def js_def integerStakes_def totalMagnitude_def stakeOf_def protoFree_def
      objectPrototypeKeys_def)

text \<open>
  C4 as stated fails: a sender whose name is the string \<open>"7"\<close> bets on 22 after
  \<open>"bob"\<close> and is listed before him, because an object enumerates array-index keys
  first.
\<close>

theorem senders_not_in_first_appearance_order:
  "perUserLines [mkRow ''22'' (JNum (Fin 5)) ''bob'', mkRow ''22'' (JNum (Fin 7)) ''7'']
     = [js ''22 -> 7: 7; bob: 5'']
   \<and> map (senderLine (\<lambda>ss. ss) [mkRow ''22'' (JNum (Fin 5)) ''bob'', mkRow ''22'' (JNum (Fin 7)) ''7''])
         (sort (remdups (map number [mkRow ''22'' (JNum (Fin 5)) ''bob'', mkRow ''22'' (JNum (Fin 7)) ''7''])))
     = [js ''22 -> bob: 5; 7: 7'']
   \<and> perUserLines [mkRow ''22'' (JNum (Fin 5)) ''bob'', mkRow ''22'' (JNum (Fin 7)) ''7'']
     \<noteq> map (senderLine (\<lambda>ss. ss) [mkRow ''22'' (JNum (Fin 5)) ''bob'', mkRow ''22'' (JNum (Fin 7)) ''7''])
         (sort (remdups (map number [mkRow ''22'' (JNum (Fin 5)) ''bob'', mkRow ''22'' (JNum (Fin 7)) ''7''])))"
  by (simp add: perUserLines_sorted senderLine_def mkRow_def sendersOf_def senderTotal_def
      propertyOrder_def isArrayIndex_def isDigit_def digitsValue_def orZeroVal_def js_def
      digitsOf.simps)

text \<open>
  C4, amended. In per-sender mode the lines are those of the distinct numbers in
  ascending order, each \<open>"<number> -> <sender1>: <sum1>; ..."\<close>; within a line the senders
  that are array indices come first, in ascending numeric order, and the other senders
  follow in first-appearance order. When no sender is an array index the order is
  first-appearance order. Numbers and senders are assumed to name no member of
  \<open>Object.prototype\<close>.
\<close>

theorem per_sender_order:
  assumes "rows \<noteq> []"
    and "\<forall>r\<in>set rows. protoFree (number r) \<and> protoFree (sender r)"
  shows "replyAggregates rows True
           = perUserHeading
             @ join [10] (map (senderLine propertyOrder rows) (sort (remdups (map number rows))))
         \<and> ((\<forall>r\<in>set rows. \<not> isArrayIndex (sender r)) \<longrightarrow>
              replyAggregates rows True
              = perUserHeading
                @ join [10] (map (senderLine (\<lambda>ss. ss) rows) (sort (remdups (map number rows)))))"
proof (intro conjI impI)
  show 1: "replyAggregates rows True
           = perUserHeading
             @ join [10] (map (senderLine propertyOrder rows) (sort (remdups (map number rows))))"
    using assms(1) by (simp add: replyAggregates_def perUserLines_sorted)
  assume ni: "\<forall>r\<in>set rows. \<not> isArrayIndex (sender r)"
  have "senderLine propertyOrder rows = senderLine (\<lambda>ss. ss) rows"
  proof (rule ext)
    fix n
    have "\<forall>k\<in>set (sendersOf n rows). \<not> isArrayIndex k"
      using ni by (auto simp: sendersOf_def)
    then show "senderLine propertyOrder rows n = senderLine (\<lambda>ss. ss) rows n"
      by (simp add: senderLine_def propertyOrder_no_index)
  qed
  then show "replyAggregates rows True
      = perUserHeading
        @ join [10] (map (senderLine (\<lambda>ss. ss) rows) (sort (remdups (map number rows))))"
    unfolding 1 by simp
qed

text \<open>
  C4, amended, at five rows: on 22 the index-like sender 9 precedes bob and amy, who
  keep their order of first appearance.
\<close>

theorem per_sender_order_witness:
  "replyAggregates [mkRow ''22'' (JNum (Fin 5)) ''bob'', mkRow ''05'' (JNum (Fin 7)) ''amy'',
                    mkRow ''22'' (JNum (Fin 3)) ''9'', mkRow ''22'' (JNum (Fin 2)) ''amy'',
                    mkRow ''22'' (JNum (Fin 1)) ''bob''] True
   = perUserHeading @ js ''05 -> amy: 7\<newline>22 -> 9: 3; bob: 6; amy: 2''"
  using per_sender_order[of "[mkRow ''22'' (JNum (Fin 5)) ''bob'', mkRow ''05'' (JNum (Fin 7)) ''amy'',
                    mkRow ''22'' (JNum (Fin 3)) ''9'', mkRow ''22'' (JNum (Fin 2)) ''amy'',
                    mkRow ''22'' (JNum (Fin 1)) ''bob'']"]
  by (simp add: senderLine_def mkRow_def sendersOf_def senderTotal_def
      propertyOrder_def isArrayIndex_def isDigit_def digitsValue_def orZeroVal_def js_def
      digitsOf.simps protoFree_def objectPrototypeKeys_def)

text \<open>
  C5. A segment made of one or two digits, optional whitespace, \<open>r\<close> or \<open>R\<close>, optional
  whitespace and a digit sequence yields exactly two bets, the original number first:
  the zero-padded number and the reversal of its padded two-character form, with the same
  amount. Inside a longer message the two entries stand together between the bets of the
  text before and after. A palindrome gives the same number twice, since the second
  number is the first one reversed.
\<close>

theorem reverse_bet_two_entries:
  assumes "length d = 1 \<or> length d = 2" and "list_all isDigit d"
    and "r = 114 \<or> r = 82"
    and "list_all isWhiteSpace ws1" and "list_all isWhiteSpace ws2"
    and "10 \<notin> set ws1" and "10 \<notin> set ws2"
    and "a \<noteq> []" and "list_all isDigit a"
    and "c1 = 10 \<or> c1 = 44" and "c2 = 10 \<or> c2 = 44"
  shows "parseMessageToBets (d @ ws1 @ [r] @ ws2 @ a)
           = [\<lparr>number = pad2 d, amount = parseInt10 a\<rparr>,
              \<lparr>number = reverse2 (pad2 d), amount = parseInt10 a\<rparr>]
         \<and> parseMessageToBets (before @ [c1] @ (d @ ws1 @ [r] @ ws2 @ a) @ [c2] @ after)
           = parseMessageToBets before
             @ [\<lparr>number = pad2 d, amount = parseInt10 a\<rparr>,
                \<lparr>number = reverse2 (pad2 d), amount = parseInt10 a\<rparr>]
             @ parseMessageToBets after
         \<and> length (pad2 d) = 2
         \<and> reverse2 (pad2 d) = rev (pad2 d)
         \<and> parseInt10 a = rnd (of_nat (digitsValue a))"
proof -
  let ?seg = "d @ ws1 @ [r] @ ws2 @ a"
  let ?two = "[\<lparr>number = pad2 d, amount = parseInt10 a\<rparr>,
               \<lparr>number = reverse2 (pad2 d), amount = parseInt10 a\<rparr>]"
  obtain d0 ds where d: "d = d0 # ds" using assms(1) by (cases d) auto
  have d0: "\<not> isWhiteSpace d0" using assms(2) digit_not_ws by (simp add: d)
  have la: "\<not> isWhiteSpace (last a)"
    using assms(8,9) digit_not_ws by (simp add: list_all_iff)
  have seg1: "?seg \<noteq> []" "\<not> isWhiteSpace (hd ?seg)" "\<not> isWhiteSpace (last ?seg)"
    using d0 la assms(8) by (simp_all add: d)
  have seg2: "\<forall>c\<in>set ?seg. c \<noteq> 10 \<and> c \<noteq> 44"
    using assms(2-9) by (auto simp: list_all_iff isDigit_def isWhiteSpace_def)
  have part: "parsePart ?seg = ?two"
    by (rule parsePart_reverse[OF assms(1-5,8,9)])
  have one: "parseMessageToBets ?seg = ?two"
    using parse_single[OF seg1 seg2] part by simp
  have "parseMessageToBets (before @ c1 # (?seg @ c2 # after))
        = parseMessageToBets before @ parseMessageToBets (?seg @ c2 # after)"
    by (rule parse_append[OF assms(10)])
  also have "parseMessageToBets (?seg @ c2 # after) = parseMessageToBets ?seg @ parseMessageToBets after"
    by (rule parse_append[OF assms(11)])
  finally have ctx: "parseMessageToBets (before @ [c1] @ ?seg @ [c2] @ after)
        = parseMessageToBets before @ ?two @ parseMessageToBets after"
    using one by simp
  have len: "length (pad2 d) = 2" using assms(1) by (auto simp: pad2_def)
  have rv: "reverse2 (pad2 d) = rev (pad2 d)" using len by (simp add: reverse2_def)
  show ?thesis
    using one ctx len rv parseInt10_digits[OF assms(8,9)] by blast
qed

text \<open>
  C5 at \<open>"7 R30"\<close>, and at the palindrome \<open>"11r9"\<close> inside a message.
\<close>

theorem reverse_bet_two_entries_witness:
  "parseMessageToBets (js ''7 R30'')
     = [\<lparr>number = js ''07'', amount = Fin 30\<rparr>, \<lparr>number = js ''70'', amount = Fin 30\<rparr>]
   \<and> parseMessageToBets (js ''22-5,11r9\<newline>x'')
     = parseMessageToBets (js ''22-5'')
       @ [\<lparr>number = js ''11'', amount = Fin 9\<rparr>, \<lparr>number = js ''11'', amount = Fin 9\<rparr>]
       @ parseMessageToBets (js ''x'')"
proof -
  have 1: "parseMessageToBets (js ''7 R30'')
     = [\<lparr>number = js ''07'', amount = Fin 30\<rparr>, \<lparr>number = js ''70'', amount = Fin 30\<rparr>]"
    using reverse_bet_two_entries[of "js ''7''" 82 "js '' ''" "[]" "js ''30''" 44 44 "[]" "[]"]
    by (simp add: evalText)
  have 2: "parseMessageToBets (js ''22-5,11r9\<newline>x'')
     = parseMessageToBets (js ''22-5'')
       @ [\<lparr>number = js ''11'', amount = Fin 9\<rparr>, \<lparr>number = js ''11'', amount = Fin 9\<rparr>]
       @ parseMessageToBets (js ''x'')"
    using reverse_bet_two_entries[of "js ''11''" 114 "[]" "[]" "js ''9''" 44 10 "js ''22-5''" "js ''x''"]
    by (simp add: evalText)
  show ?thesis using 1 2 by blast
qed

text \<open>
  C6. An empty record set is answered, in both modes, by the fixed no-data text. It
  differs from a report with zero lines, and no non-empty record set is answered by it.
\<close>

theorem empty_records_no_data:
  "replyAggregates [] False = noDataText
   \<and> replyAggregates [] True = noDataText
   \<and> noDataText \<noteq> totalHeading @ join [10] []
   \<and> noDataText \<noteq> perUserHeading @ join [10] []
   \<and> replyAggregates (r # rows) perUser \<noteq> noDataText"
  by (simp add: replyAggregates_def noDataText_def totalHeading_def perUserHeading_def js_def)

text \<open>
  C7. Two digits immediately followed by a digit sequence match the first pattern, whose
  delimiter is optional: the two leading digits are the number and the remaining digits
  the amount.
\<close>

theorem concatenation_first_rule:
  assumes "isDigit d1" and "isDigit d2" and "ds \<noteq> []" and "list_all isDigit ds"
  shows "match (d1 # d2 # ds) reDelimited = Some [d1 # d2 # ds, [d1, d2], ds]
         \<and> parseMessageToBets (d1 # d2 # ds) = [\<lparr>number = [d1, d2], amount = parseInt10 ds\<rparr>]
         \<and> parseInt10 ds = rnd (of_nat (digitsValue ds))"
proof -
  let ?s = "d1 # d2 # ds"
  have m: "match ?s reDelimited = Some [?s, [d1, d2], ds]"
    by (simp add: match_def rxmatch_concatenated[OF assms])
  have nw: "\<not> isWhiteSpace d1" "\<not> isWhiteSpace (last ?s)"
    using assms digit_not_ws by (auto simp: list_all_iff)
  have ns: "\<forall>c\<in>set ?s. c \<noteq> 10 \<and> c \<noteq> 44"
    using assms by (auto simp: list_all_iff isDigit_def)
  have "parseMessageToBets ?s = parsePart ?s"
    by (rule parse_single) (use nw ns in simp_all)
  then have p: "parseMessageToBets ?s = [\<lparr>number = [d1, d2], amount = parseInt10 ds\<rparr>]"
    by (simp add: parsePart_concatenated[OF assms])
  show ?thesis using m p parseInt10_digits[OF assms(3,4)] by blast
qed

text \<open>
  C7 at \<open>"22500"\<close>: number \<open>"22"\<close>, amount 500.
\<close>

theorem concatenation_first_rule_witness:
  "match (js ''22500'') reDelimited = Some [js ''22500'', js ''22'', js ''500'']
   \<and> parseMessageToBets (js ''22500'') = [\<lparr>number = js ''22'', amount = Fin 500\<rparr>]"
  using concatenation_first_rule[of 50 50 "js ''500''"]
  by (simp add: evalText)

text \<open>
  C8. On every string the parser returns a list of bets and throws no exception: with
  the exceptions of the language as values, the call on a string is \<open>Inr\<close> of the list, and
  so is the loop body on every part. The empty string and \<open>"hello"\<close> give the empty list. A
  part contributes no entry exactly when no rule of the grammar matches it, the result
  is made of the bets of the parts that a rule matches, in their order, and a message
  whose parts all match no rule gives the empty list.
\<close>

theorem parse_never_fails:
  "parseMessageToBetsE (JStr text) = Inr (parseMessageToBets text)
   \<and> parseMessageToBetsE (JStr []) = Inr []
   \<and> parseMessageToBetsE (JStr (js ''hello'')) = Inr []
   \<and> parsePartE part = Inr (parsePart part)
   \<and> (parsePart part = [] \<longleftrightarrow> \<not> grammarSegment part)
   \<and> parseMessageToBets text
       = concat (map parsePart (filter grammarSegment (messageParts text)))
   \<and> ((\<forall>p\<in>set (messageParts text). \<not> grammarSegment p) \<longrightarrow>
        parseMessageToBetsE (JStr text) = Inr [])"
proof (intro conjI impI)
  show "parseMessageToBetsE (JStr text) = Inr (parseMessageToBets text)"
    by (rule parseMessageToBetsE_string)
  show "parseMessageToBetsE (JStr []) = Inr []"
    by (simp add: parseMessageToBetsE_def)
  have "\<not> grammarSegment (js ''hello'')"
    by (simp add: evalGrammar evalText)
  moreover have "messageParts (js ''hello'') = [js ''hello'']"
    by (rule messageParts_single) (simp_all add: evalText)
  ultimately show "parseMessageToBetsE (JStr (js ''hello'')) = Inr []"
    by (simp add: parseMessageToBetsE_string parse_recognized_parts)
  show "parsePartE part = Inr (parsePart part)"
    by (rule parsePartE_returns)
  show "parsePart part = [] \<longleftrightarrow> \<not> grammarSegment part"
    by (simp add: parsePart_Nil_iff unrecognized_iff)
  show "parseMessageToBets text
        = concat (map parsePart (filter grammarSegment (messageParts text)))"
    by (rule parse_recognized_parts)
  show "parseMessageToBetsE (JStr text) = Inr []"
    if "\<forall>p\<in>set (messageParts text). \<not> grammarSegment p"
    using that by (simp add: parseMessageToBetsE_string parse_Nil_iff unrecognized_iff)
qed

text \<open>
  C8 at a message of three parts that no rule matches, and at a message where such
  parts stand around a bet.
\<close>

theorem parse_never_fails_witness:
  "parseMessageToBetsE (JStr (js ''hi there, 5x\<newline>?'')) = Inr []
   \<and> parseMessageToBetsE (JStr (js ''hello, 22-500 ,?''))
     = Inr [\<lparr>number = js ''22'', amount = Fin 500\<rparr>]"
proof -
  have parts1: "messageParts (js ''hi there, 5x\<newline>?'') = [js ''hi there'', js ''5x'', js ''?'']"
    by (simp add: messageParts_def trim_def evalText)
  have no: "\<not> grammarSegment (js ''hi there'')" "\<not> grammarSegment (js ''5x'')"
      "\<not> grammarSegment (js ''?'')" "\<not> grammarSegment (js ''hello'')"
    by (simp_all add: evalGrammar evalText)
  have 1: "parseMessageToBetsE (JStr (js ''hi there, 5x\<newline>?'')) = Inr []"
    using parse_never_fails[of "js ''hi there, 5x\<newline>?''"] parts1 no by simp
  have parts2: "messageParts (js ''hello, 22-500 ,?'') = [js ''hello'', js ''22-500'', js ''?'']"
    by (simp add: messageParts_def trim_def evalText)
  have yes: "grammarSegment (js ''22-500'')"
    by (simp add: evalGrammar evalText)
  have "parsePart (js ''22'' @ [] @ [45] @ [] @ js ''500'')
        = [\<lparr>number = pad2 (js ''22''), amount = parseInt10 (js ''500'')\<rparr>]"
    by (rule parsePart_delimited) (simp_all add: evalText)
  then have part: "parsePart (js ''22-500'') = [\<lparr>number = js ''22'', amount = Fin 500\<rparr>]"
    by (simp add: evalText parseInt10_digits)
  have 2: "parseMessageToBetsE (JStr (js ''hello, 22-500 ,?''))
           = Inr [\<lparr>number = js ''22'', amount = Fin 500\<rparr>]"
    using parse_never_fails[of "js ''hello, 22-500 ,?''"] parts2 no yes part by simp
  show ?thesis using 1 2 by blast
qed

text \<open>
  C9. The number of every bet the parser produces is exactly two decimal digits; a
  single matched digit gets a leading zero and two matched digits are kept.
\<close>

theorem bet_number_two_digits:
  "(\<forall>b\<in>set (parseMessageToBets text). length (number b) = 2 \<and> list_all isDigit (number b))
   \<and> pad2 [c] = [48, c]
   \<and> pad2 [c1, c2] = [c1, c2]"
  using parse_number_two_digits by (auto simp: pad2_def)

text \<open>
  C9 at \<open>"5-500"\<close>: the number is \<open>"05"\<close>.
\<close>

theorem bet_number_two_digits_witness:
  "parseMessageToBets (js ''5-500'') = [\<lparr>number = js ''05'', amount = Fin 500\<rparr>]
   \<and> length (js ''05'') = 2 \<and> list_all isDigit (js ''05'')"
proof -
  have p: "parseMessageToBets (js ''5-500'') = [\<lparr>number = js ''05'', amount = Fin 500\<rparr>]"
  proof -
    have "parseMessageToBets (js ''5-500'') = parsePart (js ''5-500'')"
      by (rule parse_single) (simp_all add: evalText)
    moreover have "parsePart (js ''5'' @ [] @ [45] @ [] @ js ''500'')
                   = [\<lparr>number = pad2 (js ''5''), amount = parseInt10 (js ''500'')\<rparr>]"
      by (rule parsePart_delimited) (simp_all add: evalText)
    ultimately show ?thesis
      by (simp add: evalText parseInt10_digits)
  qed
  from bet_number_two_digits[of "js ''5-500''"] p
  show ?thesis by simp
qed

text \<open>
  C10. The offset \<open>6.5 * 60 * 60 * 1000\<close> is exactly 23400000, adding it to a time value is
  exact, and the filter returns true exactly when the local hour of day is below 12. This
  holds for every time value of a Date whose shifted time value is one, too: from
  \<open>-8.64e15\<close> up to \<open>8.64e15 - 23400000\<close> milliseconds.
\<close>

theorem local_hour_filter:
  assumes "- 8640000000000000 \<le> t" and "t + 23400000 \<le> 8640000000000000"
  shows "yangonShift = Fin 23400000
         \<and> jsadd (Fin (of_int t)) yangonShift = Fin (of_int (t + 23400000))
         \<and> (isBeforeNoonLocal (Fin (of_int t)) \<longleftrightarrow> localHourOfDay t < 12)"
proof -
  have r: "\<bar>t\<bar> \<le> 8640000000000000" "\<bar>t + 23400000\<bar> \<le> 8640000000000000"
    using assms by simp_all
  have b: "\<bar>t + 23400000\<bar> \<le> 2 ^ 53" using r(2) by simp
  have "jsadd (Fin (of_int t)) yangonShift = Fin (of_int (t + 23400000))"
    using jsadd_safe[OF b] by (simp add: yangonShift_value del: jsadd.simps)
  then show ?thesis
    using isBeforeNoonLocal_int[OF r(1)] r(2) yangonShift_value by simp
qed

text \<open>
  C10 at two instants of November 2023, one before and one after local noon.
\<close>

theorem local_hour_filter_witness:
  "isBeforeNoonLocal (Fin 1700000000000) = True \<and> localHourOfDay 1700000000000 = 4
   \<and> isBeforeNoonLocal (Fin 1700030000000) = False \<and> localHourOfDay 1700030000000 = 13"
  using local_hour_filter[of 1700000000000] local_hour_filter[of 1700030000000]
  by (simp add: localHourOfDay_def)

section \<open>Further properties\<close>

text \<open>
  X1. Reversal is an involution on two-character strings and keeps their length; a
  palindrome is a fixed point.
\<close>

theorem reversal_involutive:
  "(length s = 2 \<longrightarrow> reverse2 (reverse2 s) = s \<and> length (reverse2 s) = 2)
   \<and> reverse2 [c, c] = [c, c]"
  by (simp add: reverse2_def)

text \<open>X1 at \<open>"15"\<close>.\<close>

theorem reversal_involutive_witness:
  "reverse2 (js ''15'') = js ''51'' \<and> reverse2 (reverse2 (js ''15'')) = js ''15''"
  using reversal_involutive[of "js ''15''"] by (simp add: evalText)

text \<open>
  X2. The first pattern with its delimiter: one or two digits, optional whitespace, one of
  \<open>-\<close>, \<open>_\<close>, \<open>d\<close>, \<open>D\<close>, optional whitespace and a digit sequence give one bet with the
  zero-padded number; so does the same pair separated by whitespace alone.
\<close>

theorem delimited_pair:
  assumes "length d = 1 \<or> length d = 2" and "list_all isDigit d"
    and "r = 45 \<or> r = 95 \<or> r = 100 \<or> r = 68"
    and "list_all isWhiteSpace ws1" and "list_all isWhiteSpace ws2"
    and "10 \<notin> set ws1" and "10 \<notin> set ws2"
    and "a \<noteq> []" and "list_all isDigit a"
  shows "parseMessageToBets (d @ ws1 @ [r] @ ws2 @ a)
           = [\<lparr>number = pad2 d, amount = parseInt10 a\<rparr>]
         \<and> (ws1 \<noteq> [] \<longrightarrow>
              parseMessageToBets (d @ ws1 @ a) = [\<lparr>number = pad2 d, amount = parseInt10 a\<rparr>])"
proof (intro conjI impI)
  have mid: "\<forall>c\<in>set (ws1 @ [r] @ ws2). c \<noteq> 10 \<and> c \<noteq> 44"
    using assms(3-7) by (auto simp: list_all_iff isWhiteSpace_def)
  from parse_pair_part[OF assms(1,2,8,9) mid]
  show "parseMessageToBets (d @ ws1 @ [r] @ ws2 @ a) = [\<lparr>number = pad2 d, amount = parseInt10 a\<rparr>]"
    using parsePart_delimited[OF assms(1-5,8,9)] by simp
  assume ne: "ws1 \<noteq> []"
  have mid1: "\<forall>c\<in>set ws1. c \<noteq> 10 \<and> c \<noteq> 44"
    using assms(4,6) by (auto simp: list_all_iff isWhiteSpace_def)
  from parse_pair_part[OF assms(1,2,8,9) mid1]
  show "parseMessageToBets (d @ ws1 @ a) = [\<lparr>number = pad2 d, amount = parseInt10 a\<rparr>]"
    using parsePart_spaced[OF assms(1,2) ne assms(4,8,9)] by simp
qed

text \<open>X2 at \<open>"22-500"\<close> and \<open>"22 500"\<close>.\<close>

theorem delimited_pair_witness:
  "parseMessageToBets (js ''22-500'') = [\<lparr>number = js ''22'', amount = Fin 500\<rparr>]
   \<and> parseMessageToBets (js ''22 500'') = [\<lparr>number = js ''22'', amount = Fin 500\<rparr>]"
proof -
  have 1: "parseMessageToBets (js ''22-500'') = [\<lparr>number = js ''22'', amount = Fin 500\<rparr>]"
    using delimited_pair[of "js ''22''" 45 "[]" "[]" "js ''500''"]
    by (simp add: evalText parseInt10_digits)
  have 2: "parseMessageToBets (js ''22 500'') = [\<lparr>number = js ''22'', amount = Fin 500\<rparr>]"
    using delimited_pair[of "js ''22''" 45 "js '' ''" "[]" "js ''500''"]
    by (simp add: evalText parseInt10_digits)
  show ?thesis using 1 2 by blast
qed

text \<open>
  X3. The third pattern: a pair with \<open>=\<close> gives one bet; and the parts of a message
  contribute in their order, as in \<open>"22=500\n10 300"\<close>.
\<close>

theorem equals_pair:
  assumes "length d = 1 \<or> length d = 2" and "list_all isDigit d"
    and "list_all isWhiteSpace ws1" and "list_all isWhiteSpace ws2"
    and "10 \<notin> set ws1" and "10 \<notin> set ws2"
    and "a \<noteq> []" and "list_all isDigit a"
  shows "parseMessageToBets (d @ ws1 @ [61] @ ws2 @ a)
           = [\<lparr>number = pad2 d, amount = parseInt10 a\<rparr>]
         \<and> parseMessageToBets ((d @ ws1 @ [61] @ ws2 @ a) @ [10] @ rest)
           = \<lparr>number = pad2 d, amount = parseInt10 a\<rparr> # parseMessageToBets rest"
proof -
  have mid: "\<forall>c\<in>set (ws1 @ [61] @ ws2). c \<noteq> 10 \<and> c \<noteq> 44"
    using assms(3-6) by (auto simp: list_all_iff isWhiteSpace_def)
  from parse_pair_part[OF assms(1,2,7,8) mid]
  have 1: "parseMessageToBets (d @ ws1 @ [61] @ ws2 @ a) = [\<lparr>number = pad2 d, amount = parseInt10 a\<rparr>]"
    using parsePart_equals[OF assms(1-4,7,8)] by simp
  have "parseMessageToBets ((d @ ws1 @ [61] @ ws2 @ a) @ 10 # rest)
        = parseMessageToBets (d @ ws1 @ [61] @ ws2 @ a) @ parseMessageToBets rest"
    by (rule parse_append) simp
  with 1 show ?thesis by simp
qed

text \<open>X3 at \<open>"22=500\n10 300"\<close>.\<close>

theorem equals_pair_witness:
  "parseMessageToBets (js ''22=500\<newline>10 300'')
   = [\<lparr>number = js ''22'', amount = Fin 500\<rparr>, \<lparr>number = js ''10'', amount = Fin 300\<rparr>]"
proof -
  have "parseMessageToBets (js ''10 300'') = [\<lparr>number = js ''10'', amount = Fin 300\<rparr>]"
  proof -
    have "parseMessageToBets (js ''10'' @ js '' '' @ js ''300'') = parsePart (js ''10'' @ js '' '' @ js ''300'')"
      by (rule parse_pair_part) (simp_all add: evalText)
    moreover have "parsePart (js ''10'' @ js '' '' @ js ''300'')
        = [\<lparr>number = pad2 (js ''10''), amount = parseInt10 (js ''300'')\<rparr>]"
      by (rule parsePart_spaced) (simp_all add: evalText)
    ultimately show ?thesis by (simp add: evalText parseInt10_digits)
  qed
  then show ?thesis
    using equals_pair[of "js ''22''" "[]" "[]" "js ''500''" "js ''10 300''"]
    by (simp add: evalText parseInt10_digits)
qed

text \<open>
  X4. The fourth pattern never decides: whatever it matches, the first pattern, tried
  before it, matches with the same groups.
\<close>

theorem fourth_pattern_shadowed:
  "match s reSpaced = Some m \<longrightarrow> match s reDelimited = Some m"
  using reSpaced_shadowed by blast

text \<open>X4 at \<open>"10 300"\<close>.\<close>

theorem fourth_pattern_shadowed_witness:
  "match (js ''10 300'') reSpaced = Some [js ''10 300'', js ''10'', js ''300'']
   \<and> match (js ''10 300'') reDelimited = Some [js ''10 300'', js ''10'', js ''300'']"
proof -
  have "match (js ''10 300'') reSpaced = Some [js ''10 300'', js ''10'', js ''300'']"
    by (simp add: match_def reSpaced_def rxmatch.simps evalText)
  then show ?thesis
    using fourth_pattern_shadowed[of "js ''10 300''" "[js ''10 300'', js ''10'', js ''300'']"]
    by simp
qed

text \<open>
  X5. Over the whole range of a Date the filter keeps a row exactly when the shifted
  time value is still a valid date and its hour is below 12; in the last 6 hours 30
  minutes of the range the shifted date is invalid and the row is dropped. A row whose
  date is invalid is dropped as well.
\<close>

theorem filter_beyond_date_range:
  assumes "\<bar>t\<bar> \<le> 8640000000000000"
  shows "isBeforeNoonLocal (Fin (of_int t))
           = (if \<bar>t + 23400000\<bar> \<le> 8640000000000000 then localHourOfDay t < 12 else False)
         \<and> \<not> isBeforeNoonLocal NaN"
  using isBeforeNoonLocal_int[OF assms]
  by (simp add: isBeforeNoonLocal_def TimeClip_def getUTCHours_def)

text \<open>X5 at the last instant of the range, whose local hour of day is 6.\<close>

theorem filter_beyond_date_range_witness:
  "\<not> isBeforeNoonLocal (Fin 8640000000000000) \<and> localHourOfDay 8640000000000000 = 6"
  using filter_beyond_date_range[of 8640000000000000] by (simp add: localHourOfDay_def)

end
